theory Spec2Isabelle
  imports Complex_Main "HOL-Library.Multiset" "HOL-Library.Log_Nat"
begin

section \<open>Values of the preprocessing library\<close>

text \<open>
  The functions of \<open>src/preprocessing.py\<close> work on Python lists whose elements are
  \<open>None\<close>, booleans, integers, floats, strings and nested lists. A float is a finite
  number, an infinity or not-a-number; a finite float is kept as the rational number
  it denotes (the sign of a zero is not kept: \<open>-0.0 == 0.0\<close> in Python).
  \<open>bool\<close> is a subclass of \<open>int\<close>, so \<open>isinstance(x, (int, float))\<close> holds of the three
  kinds of \<open>number\<close>.
\<close>

datatype pyfloat = Finite rat | PosInf | NegInf | NaN

datatype number = NBool bool | NInt int | NFloat pyfloat

datatype pyval = PNone | PNum number | PStr string | PList "pyval list"

datatype error = TypeError | ValueError | OverflowError | ZeroDivisionError | IndexError

text \<open>\<open>hash(x)\<close> raises \<open>TypeError\<close> on a list and on nothing else of these values.\<close>

fun hashable :: "pyval \<Rightarrow> bool" where
  "hashable (PList xs) = False"
| "hashable v = True"

text \<open>
  \<open>item in {None, ""}\<close>: the set hashes the item first (a list raises), then looks for
  an equal member. No number equals \<open>None\<close> or the empty string.
\<close>

definition in_missing_values :: "pyval \<Rightarrow> error + bool" where
  "in_missing_values item =
     (if \<not> hashable item then Inl TypeError
      else Inr (item = PNone \<or> item = PStr []))"

text \<open>\<open>isinstance(item, float) and math.isnan(item)\<close>; on a float \<open>math.isnan\<close> never raises.\<close>

definition is_nan :: "pyval \<Rightarrow> bool" where
  "is_nan item = (case item of PNum (NFloat NaN) \<Rightarrow> True | _ \<Rightarrow> False)"

section \<open>Cleaning functions\<close>

text \<open>The loop of \<open>remove_missing_values\<close>, with \<open>cleaned_data\<close> as the accumulator.\<close>

fun remove_missing_loop :: "pyval list \<Rightarrow> pyval list \<Rightarrow> error + pyval list" where
  "remove_missing_loop [] cleaned_data = Inr cleaned_data"
| "remove_missing_loop (item # rest) cleaned_data =
     (case in_missing_values item of
        Inl e \<Rightarrow> Inl e
      | Inr True \<Rightarrow> remove_missing_loop rest cleaned_data
      | Inr False \<Rightarrow>
          if is_nan item then remove_missing_loop rest cleaned_data
          else remove_missing_loop rest (cleaned_data @ [item]))"

definition remove_missing_values :: "pyval list \<Rightarrow> error + pyval list" where
  "remove_missing_values data = remove_missing_loop data []"

fun filling_missing_loop :: "pyval list \<Rightarrow> pyval \<Rightarrow> pyval list \<Rightarrow> error + pyval list" where
  "filling_missing_loop [] fill_value cleaned_data = Inr cleaned_data"
| "filling_missing_loop (item # rest) fill_value cleaned_data =
     (case in_missing_values item of
        Inl e \<Rightarrow> Inl e
      | Inr True \<Rightarrow> filling_missing_loop rest fill_value (cleaned_data @ [fill_value])
      | Inr False \<Rightarrow>
          if is_nan item then filling_missing_loop rest fill_value (cleaned_data @ [fill_value])
          else filling_missing_loop rest fill_value (cleaned_data @ [item]))"

definition filling_missing_values :: "pyval list \<Rightarrow> pyval \<Rightarrow> error + pyval list" where
  "filling_missing_values data fill_value = filling_missing_loop data fill_value []"

text \<open>
  The specification's classification of a missing value: the null marker, the empty
  string, or a not-a-number float.
\<close>

definition is_missing :: "pyval \<Rightarrow> bool" where
  "is_missing v = (v = PNone \<or> v = PStr [] \<or> v = PNum (NFloat NaN))"

text \<open>Running one function on the result of another, an exception passing through.\<close>

definition then_call :: "error + 'a \<Rightarrow> ('a \<Rightarrow> error + 'b) \<Rightarrow> error + 'b" where
  "then_call r f = (case r of Inl e \<Rightarrow> Inl e | Inr x \<Rightarrow> f x)"

text \<open>The number of elements of a returned list (\<open>None\<close> when the call raised).\<close>

definition returned_length :: "error + 'a list \<Rightarrow> nat option" where
  "returned_length r = (case r of Inl e \<Rightarrow> None | Inr xs \<Rightarrow> Some (length xs))"

section \<open>Comparing numbers\<close>

text \<open>
  Python compares an \<open>int\<close> with a \<open>float\<close> exactly (no conversion that rounds), so
  each number is compared through the exact value it denotes; a \<open>bool\<close> counts as
  \<open>0\<close> or \<open>1\<close>. Every ordering comparison with not-a-number is false, and
  not-a-number equals nothing, itself included.
\<close>

fun exact_value :: "number \<Rightarrow> pyfloat" where
  "exact_value (NBool b) = Finite (if b then 1 else 0)"
| "exact_value (NInt i) = Finite (of_int i)"
| "exact_value (NFloat f) = f"

fun float_lt :: "pyfloat \<Rightarrow> pyfloat \<Rightarrow> bool" where
  "float_lt NaN y = False"
| "float_lt x NaN = False"
| "float_lt x NegInf = False"
| "float_lt PosInf y = False"
| "float_lt NegInf y = True"
| "float_lt x PosInf = True"
| "float_lt (Finite a) (Finite b) = (a < b)"

definition float_eq :: "pyfloat \<Rightarrow> pyfloat \<Rightarrow> bool" where
  "float_eq x y = (x \<noteq> NaN \<and> x = y)"

definition num_lt :: "number \<Rightarrow> number \<Rightarrow> bool" where
  "num_lt a b = float_lt (exact_value a) (exact_value b)"

definition num_gt :: "number \<Rightarrow> number \<Rightarrow> bool" where
  "num_gt a b = float_lt (exact_value b) (exact_value a)"

definition num_eq :: "number \<Rightarrow> number \<Rightarrow> bool" where
  "num_eq a b = float_eq (exact_value a) (exact_value b)"

definition num_le :: "number \<Rightarrow> number \<Rightarrow> bool" where
  "num_le a b = (num_lt a b \<or> num_eq a b)"

text \<open>
  \<open>remove_duplicated_values\<close> is \<open>list(dict.fromkeys(data))\<close>. A dictionary finds a key
  by \<open>stored is key or stored == key\<close> (after hashing the key, which raises on a list),
  so the identity of an object matters: the same not-a-number object is found again,
  another not-a-number object is a new key. An element of the list is therefore a
  reference: the identity of the object and its value. Equal numbers hash alike
  (\<open>hash(1) == hash(1.0) == hash(True)\<close>), so \<open>==\<close> alone decides for them.
\<close>

type_synonym obj = "nat \<times> pyval"

fun py_eq :: "pyval \<Rightarrow> pyval \<Rightarrow> bool" where
  "py_eq PNone PNone = True"
| "py_eq (PNum a) (PNum b) = num_eq a b"
| "py_eq (PStr s) (PStr t) = (s = t)"
| "py_eq v w = False"

definition key_eq :: "obj \<Rightarrow> obj \<Rightarrow> bool" where
  "key_eq stored key = (fst stored = fst key \<or> py_eq (snd stored) (snd key))"

text \<open>\<open>d[key] = None\<close> on the keys of \<open>d\<close> in insertion order: a key already there stays as it is.\<close>

definition dict_set_key :: "obj list \<Rightarrow> obj \<Rightarrow> error + obj list" where
  "dict_set_key keys key =
     (if \<not> hashable (snd key) then Inl TypeError
      else if list_ex (\<lambda>stored. key_eq stored key) keys then Inr keys
      else Inr (keys @ [key]))"

fun fromkeys_loop :: "obj list \<Rightarrow> obj list \<Rightarrow> error + obj list" where
  "fromkeys_loop [] keys = Inr keys"
| "fromkeys_loop (item # rest) keys =
     (case dict_set_key keys item of
        Inl e \<Rightarrow> Inl e
      | Inr keys' \<Rightarrow> fromkeys_loop rest keys')"

definition remove_duplicated_values :: "obj list \<Rightarrow> error + obj list" where
  "remove_duplicated_values data = fromkeys_loop data []"

text \<open>
  Keeping the first occurrence only: the head stays, and every later element the
  dictionary takes for the same key goes.
\<close>

fun first_occurrences :: "obj list \<Rightarrow> obj list" where
  "first_occurrences [] = []"
| "first_occurrences (x # xs) = x # first_occurrences (filter (\<lambda>y. \<not> key_eq x y) xs)"

section \<open>Clipping\<close>

text \<open>
  \<open>min_val\<close> and \<open>max_val\<close> are annotated \<open>float\<close>: they are numbers. The list holds
  any values; those that are not numbers are skipped.
\<close>

fun clip_loop :: "pyval list \<Rightarrow> number \<Rightarrow> number \<Rightarrow> pyval list \<Rightarrow> pyval list" where
  "clip_loop [] min_val max_val clipped_data = clipped_data"
| "clip_loop (item # rest) min_val max_val clipped_data =
     (case item of
        PNum x \<Rightarrow>
          if num_lt x min_val then clip_loop rest min_val max_val (clipped_data @ [PNum min_val])
          else if num_gt x max_val then clip_loop rest min_val max_val (clipped_data @ [PNum max_val])
          else clip_loop rest min_val max_val (clipped_data @ [item])
      | _ \<Rightarrow> clip_loop rest min_val max_val clipped_data)"

definition clip_values :: "pyval list \<Rightarrow> number \<Rightarrow> number \<Rightarrow> error + pyval list" where
  "clip_values data min_val max_val =
     (if num_gt min_val max_val then Inl ValueError
      else Inr (clip_loop data min_val max_val []))"

text \<open>The numbers of a list, in order, and one number clipped to a range.\<close>

fun numbers_of :: "pyval list \<Rightarrow> number list" where
  "numbers_of [] = []"
| "numbers_of (PNum x # rest) = x # numbers_of rest"
| "numbers_of (v # rest) = numbers_of rest"

definition clip_one :: "number \<Rightarrow> number \<Rightarrow> number \<Rightarrow> number" where
  "clip_one min_val max_val x =
     (if num_lt x min_val then min_val else if num_gt x max_val then max_val else x)"

definition in_range :: "number \<Rightarrow> number \<Rightarrow> number \<Rightarrow> bool" where
  "in_range min_val max_val x = (num_le min_val x \<and> num_le x max_val)"

section \<open>Structural functions\<close>

text \<open>The loop of \<open>flatten_list\<close>: \<open>extend\<close> on a list element, \<open>append\<close> on any other.\<close>

fun flatten_loop :: "pyval list \<Rightarrow> pyval list \<Rightarrow> pyval list" where
  "flatten_loop [] flattened = flattened"
| "flatten_loop (item # rest) flattened =
     (case item of
        PList xs \<Rightarrow> flatten_loop rest (flattened @ xs)
      | _ \<Rightarrow> flatten_loop rest (flattened @ [item]))"

definition flatten_list :: "pyval list \<Rightarrow> pyval list" where
  "flatten_list data = flatten_loop data []"

fun is_list :: "pyval \<Rightarrow> bool" where
  "is_list (PList xs) = True"
| "is_list v = False"

text \<open>What one top-level element contributes when one level of nesting is spliced.\<close>

fun splice :: "pyval \<Rightarrow> pyval list" where
  "splice (PList xs) = xs"
| "splice v = [v]"

section \<open>Shuffling\<close>

text \<open>
  \<open>shuffle_list\<close> seeds the generator of the \<open>random\<close> module when a seed is given,
  copies the list and calls \<open>random.shuffle\<close> on the copy. The generator is the
  module's hidden state \<open>g\<close>, passed in and returned. \<open>random.seed\<close> and the
  generator's \<open>randbelow\<close> belong to the Python library: they are parameters.
  \<open>random.shuffle\<close> is the library's loop
  \<^verbatim>\<open>for i in reversed(range(1, len(x))): j = randbelow(i + 1); x[i], x[j] = x[j], x[i]\<close>.
\<close>

type_synonym 'g randbelow = "nat \<Rightarrow> 'g \<Rightarrow> nat \<times> 'g"

definition swap_items :: "'a list \<Rightarrow> nat \<Rightarrow> nat \<Rightarrow> error + 'a list" where
  "swap_items x i j =
     (if i < length x \<and> j < length x then Inr (x[i := x ! j, j := x ! i])
      else Inl IndexError)"

fun shuffle_loop :: "'g randbelow \<Rightarrow> nat \<Rightarrow> 'a list \<Rightarrow> 'g \<Rightarrow> error + 'a list \<times> 'g" where
  "shuffle_loop randbelow 0 x g = Inr (x, g)"
| "shuffle_loop randbelow (Suc n) x g =
     (case randbelow (Suc n + 1) g of
        (j, g') \<Rightarrow>
          (case swap_items x (Suc n) j of
             Inl e \<Rightarrow> Inl e
           | Inr x' \<Rightarrow> shuffle_loop randbelow n x' g'))"

definition random_shuffle :: "'g randbelow \<Rightarrow> 'a list \<Rightarrow> 'g \<Rightarrow> error + 'a list \<times> 'g" where
  "random_shuffle randbelow x g = shuffle_loop randbelow (length x - 1) x g"

definition shuffle_list ::
  "(int \<Rightarrow> 'g) \<Rightarrow> 'g randbelow \<Rightarrow> pyval list \<Rightarrow> int option \<Rightarrow> 'g \<Rightarrow> error + pyval list \<times> 'g" where
  "shuffle_list random_seed randbelow data seed g =
     (let g1 = (case seed of None \<Rightarrow> g | Some s \<Rightarrow> random_seed s);
          shuffled_list = data
      in random_shuffle randbelow shuffled_list g1)"

text \<open>What the library promises of \<open>randbelow(n)\<close>: an index below \<open>n\<close>.\<close>

definition in_bounds :: "'g randbelow \<Rightarrow> bool" where
  "in_bounds randbelow = (\<forall>n g. 0 < n \<longrightarrow> fst (randbelow n g) < n)"

text \<open>
  A small linear congruential generator, to run the model on: it stands in for the
  library's generator where a concrete one is needed.
\<close>

definition lcg_seed :: "int \<Rightarrow> nat" where
  "lcg_seed s = nat \<bar>s\<bar>"

definition lcg_randbelow :: "nat randbelow" where
  "lcg_randbelow n g =
     (let g' = (g * 1103515245 + 12345) mod 2147483648 in ((g' div 65536) mod n, g'))"

section \<open>Text\<close>

text \<open>
  \<open>tokenize_text\<close> returns \<open>""\<close> on a value that is not a string; on a string it is
  \<open>" ".join(re.findall(r"\b\w+\b", text.lower()))\<close>. What \<open>str.lower\<close> does and which
  characters the class \<open>\w\<close> holds is decided by the Unicode tables of the Python
  library: \<open>lower\<close> and \<open>word_char\<close> are parameters.

  \<open>\b\<close> matches at a position with a word character on exactly one side. A match of
  \<open>\b\w+\b\<close> at \<open>i\<close> needs a boundary at \<open>i\<close>; \<open>\w+\<close> then takes the longest run and gives
  characters back one at a time until a boundary follows. \<open>findall\<close> tries each position
  from the left and goes on after the end of a match.
\<close>

definition at_boundary :: "(char \<Rightarrow> bool) \<Rightarrow> string \<Rightarrow> nat \<Rightarrow> bool" where
  "at_boundary word_char text i =
     ((i < length text \<and> word_char (text ! i)) \<noteq> (0 < i \<and> i \<le> length text \<and> word_char (text ! (i - 1))))"

fun match_word_end :: "(char \<Rightarrow> bool) \<Rightarrow> string \<Rightarrow> nat \<Rightarrow> nat \<Rightarrow> nat option" where
  "match_word_end word_char text i 0 = None"
| "match_word_end word_char text i (Suc n) =
     (if at_boundary word_char text (i + Suc n) then Some (i + Suc n)
      else match_word_end word_char text i n)"

definition match_word_at :: "(char \<Rightarrow> bool) \<Rightarrow> string \<Rightarrow> nat \<Rightarrow> nat option" where
  "match_word_at word_char text i =
     (if at_boundary word_char text i
      then match_word_end word_char text i (length (takeWhile word_char (drop i text)))
      else None)"

function findall_from :: "(char \<Rightarrow> bool) \<Rightarrow> string \<Rightarrow> nat \<Rightarrow> string list" where
  "findall_from word_char text pos =
     (if length text < pos then []
      else case match_word_at word_char text pos of
             None \<Rightarrow> findall_from word_char text (pos + 1)
           | Some e \<Rightarrow> take (e - pos) (drop pos text) # findall_from word_char text e)"
  by pat_completeness auto
termination
proof (relation "measure (\<lambda>(w, s, pos). length s + 1 - pos)", goal_cases)
  case 1
  show ?case by simp
next
  case (2 w s pos)
  then show ?case by simp
next
  case (3 w s pos e)
  have "match_word_end w s pos n = Some e \<Longrightarrow> pos < e" for n
    by (induction n) (auto split: if_splits)
  with 3 have "pos < e" by (auto simp: match_word_at_def split: if_splits)
  with 3 show ?case by simp
qed

declare findall_from.simps [simp del]

text \<open>\<open>" ".join(words)\<close>.\<close>

fun join_space :: "string list \<Rightarrow> string" where
  "join_space [] = []"
| "join_space [x] = x"
| "join_space (x # y # ys) = x @ '' '' @ join_space (y # ys)"

definition tokenize_text :: "(string \<Rightarrow> string) \<Rightarrow> (char \<Rightarrow> bool) \<Rightarrow> pyval \<Rightarrow> string" where
  "tokenize_text lower word_char text =
     (case text of
        PStr s \<Rightarrow> join_space (findall_from word_char (lower s) 0)
      | _ \<Rightarrow> [])"

text \<open>
  The specification's words: the maximal runs of word characters of a text, in order.
  Characters that are not word characters are skipped, then the longest run of word
  characters is one word, and so on after it.
\<close>

function word_runs :: "(char \<Rightarrow> bool) \<Rightarrow> string \<Rightarrow> string list" where
  "word_runs word_char text =
     (case dropWhile (\<lambda>c. \<not> word_char c) text of
        [] \<Rightarrow> []
      | c # cs \<Rightarrow> takeWhile word_char (c # cs) # word_runs word_char (dropWhile word_char (c # cs)))"
  by pat_completeness auto
termination
proof (relation "measure (\<lambda>(w, text). length text)", goal_cases)
  case 1 show ?case by simp
next
  case (2 w s c cs)
  have "w c" using 2 hd_dropWhile [of "\<lambda>c. \<not> w c" s] by (metis list.sel(1) list.distinct(1))
  then have "length (dropWhile w (c # cs)) \<le> length cs" by (simp add: length_dropWhile_le)
  moreover have "length (c # cs) \<le> length s"
    using 2 length_dropWhile_le [of "\<lambda>c. \<not> w c" s] by simp
  ultimately show ?case by simp
qed

declare word_runs.simps [simp del]

text \<open>
  The tables restricted to ASCII, to run the model on: the letters, the digits and the
  underscore are the word characters, and \<open>lower\<close> moves \<open>A\<close> to \<open>Z\<close> only.
\<close>

definition ascii_word_char :: "char \<Rightarrow> bool" where
  "ascii_word_char c =
     (let n = (of_char c :: nat)
      in (48 \<le> n \<and> n \<le> 57) \<or> (65 \<le> n \<and> n \<le> 90) \<or> (97 \<le> n \<and> n \<le> 122) \<or> n = 95)"

definition ascii_lower_char :: "char \<Rightarrow> char" where
  "ascii_lower_char c =
     (let n = (of_char c :: nat) in if 65 \<le> n \<and> n \<le> 90 then char_of (n + 32) else c)"

definition ascii_lower :: "string \<Rightarrow> string" where
  "ascii_lower s = map ascii_lower_char s"

section \<open>Floating-point numbers\<close>

text \<open>
  A Python float is an IEEE 754 binary64 number. The result of an operation on finite
  floats is the exact result rounded to the nearest double, ties to the even one; past
  the largest double it is an infinity. A double near \<open>q\<close> is a multiple of the
  \<open>quantum\<close> of \<open>q\<close>: \<open>2\<close> to the power \<open>e - 52\<close>, where \<open>e\<close> is the binary exponent
  of \<open>q\<close>, and never less than \<open>2\<close> to the power \<open>-1074\<close> (the subnormal numbers).
\<close>

definition round_half_even :: "rat \<Rightarrow> int" where
  "round_half_even x =
     (let f = \<lfloor>x\<rfloor>; d = x - of_int f
      in if d < 1 / 2 then f else if 1 / 2 < d then f + 1 else if even f then f else f + 1)"

definition binary_exponent :: "rat \<Rightarrow> int" where
  "binary_exponent q =
     (let a = \<bar>q\<bar>
      in if 1 \<le> a then bitlen \<lfloor>a\<rfloor> - 1 else - bitlen (\<lceil>1 / a\<rceil> - 1))"

definition quantum :: "rat \<Rightarrow> rat" where
  "quantum q = 2 powi (max (binary_exponent q) (- 1022) - 52)"

text \<open>The multiple of the quantum nearest to \<open>q\<close>, and the double it gives.\<close>

definition nearest_multiple :: "rat \<Rightarrow> rat" where
  "nearest_multiple q = of_int (round_half_even (q / quantum q)) * quantum q"

definition round_to_double :: "rat \<Rightarrow> pyfloat" where
  "round_to_double q =
     (let v = nearest_multiple q
      in if 2 ^ 1024 \<le> v then PosInf else if v \<le> - (2 ^ 1024) then NegInf else Finite v)"

text \<open>
  The operations of \<open>float\<close>. Python raises \<open>ZeroDivisionError\<close> on a zero divisor
  whatever the dividend is; no other operation on floats raises.
\<close>

fun float_neg :: "pyfloat \<Rightarrow> pyfloat" where
  "float_neg (Finite a) = Finite (- a)"
| "float_neg PosInf = NegInf"
| "float_neg NegInf = PosInf"
| "float_neg NaN = NaN"

fun float_add :: "pyfloat \<Rightarrow> pyfloat \<Rightarrow> pyfloat" where
  "float_add NaN y = NaN"
| "float_add x NaN = NaN"
| "float_add (Finite a) (Finite b) = round_to_double (a + b)"
| "float_add PosInf NegInf = NaN"
| "float_add NegInf PosInf = NaN"
| "float_add PosInf y = PosInf"
| "float_add NegInf y = NegInf"
| "float_add (Finite a) PosInf = PosInf"
| "float_add (Finite a) NegInf = NegInf"

definition float_sub :: "pyfloat \<Rightarrow> pyfloat \<Rightarrow> pyfloat" where
  "float_sub x y = float_add x (float_neg y)"

fun float_sign :: "pyfloat \<Rightarrow> int" where
  "float_sign (Finite a) = (if a < 0 then - 1 else if a = 0 then 0 else 1)"
| "float_sign PosInf = 1"
| "float_sign NegInf = - 1"
| "float_sign NaN = 0"

fun float_mul :: "pyfloat \<Rightarrow> pyfloat \<Rightarrow> pyfloat" where
  "float_mul NaN y = NaN"
| "float_mul x NaN = NaN"
| "float_mul (Finite a) (Finite b) = round_to_double (a * b)"
| "float_mul x y =
     (if float_sign x * float_sign y = 0 then NaN
      else if 0 < float_sign x * float_sign y then PosInf else NegInf)"

fun float_div :: "pyfloat \<Rightarrow> pyfloat \<Rightarrow> error + pyfloat" where
  "float_div x (Finite b) =
     (if b = 0 then Inl ZeroDivisionError
      else case x of
             Finite a \<Rightarrow> Inr (round_to_double (a / b))
           | PosInf \<Rightarrow> Inr (if 0 < b then PosInf else NegInf)
           | NegInf \<Rightarrow> Inr (if 0 < b then NegInf else PosInf)
           | NaN \<Rightarrow> Inr NaN)"
| "float_div (Finite a) NaN = Inr NaN"
| "float_div (Finite a) y = Inr (Finite 0)"
| "float_div x y = Inr NaN"

text \<open>
  Arithmetic on numbers. Two integers (a \<open>bool\<close> is one) are subtracted, multiplied
  and added exactly, as integers; their true division is the exact quotient rounded to
  a double (\<open>OverflowError\<close> past the largest). With a float operand, the other operand
  is converted to a float first, which raises \<open>OverflowError\<close> on an integer too large.
\<close>

fun as_int :: "number \<Rightarrow> int option" where
  "as_int (NBool b) = Some (if b then 1 else 0)"
| "as_int (NInt i) = Some i"
| "as_int (NFloat f) = None"

definition int_to_float :: "int \<Rightarrow> error + pyfloat" where
  "int_to_float i =
     (case round_to_double (of_int i) of
        Finite v \<Rightarrow> Inr (Finite v)
      | _ \<Rightarrow> Inl OverflowError)"

fun to_float :: "number \<Rightarrow> error + pyfloat" where
  "to_float (NFloat f) = Inr f"
| "to_float (NInt i) = int_to_float i"
| "to_float (NBool b) = Inr (Finite (if b then 1 else 0))"

definition float_op ::
  "(pyfloat \<Rightarrow> pyfloat \<Rightarrow> error + pyfloat) \<Rightarrow> number \<Rightarrow> number \<Rightarrow> error + number" where
  "float_op f a b =
     (case to_float a of
        Inl e \<Rightarrow> Inl e
      | Inr x \<Rightarrow>
          (case to_float b of
             Inl e \<Rightarrow> Inl e
           | Inr y \<Rightarrow> (case f x y of Inl e \<Rightarrow> Inl e | Inr z \<Rightarrow> Inr (NFloat z))))"

definition num_add :: "number \<Rightarrow> number \<Rightarrow> error + number" where
  "num_add a b =
     (case (as_int a, as_int b) of
        (Some i, Some j) \<Rightarrow> Inr (NInt (i + j))
      | _ \<Rightarrow> float_op (\<lambda>x y. Inr (float_add x y)) a b)"

definition num_sub :: "number \<Rightarrow> number \<Rightarrow> error + number" where
  "num_sub a b =
     (case (as_int a, as_int b) of
        (Some i, Some j) \<Rightarrow> Inr (NInt (i - j))
      | _ \<Rightarrow> float_op (\<lambda>x y. Inr (float_sub x y)) a b)"

definition num_mul :: "number \<Rightarrow> number \<Rightarrow> error + number" where
  "num_mul a b =
     (case (as_int a, as_int b) of
        (Some i, Some j) \<Rightarrow> Inr (NInt (i * j))
      | _ \<Rightarrow> float_op (\<lambda>x y. Inr (float_mul x y)) a b)"

definition int_truediv :: "int \<Rightarrow> int \<Rightarrow> error + number" where
  "int_truediv i j =
     (if j = 0 then Inl ZeroDivisionError
      else case round_to_double (of_int i / of_int j) of
             Finite v \<Rightarrow> Inr (NFloat (Finite v))
           | _ \<Rightarrow> Inl OverflowError)"

definition num_truediv :: "number \<Rightarrow> number \<Rightarrow> error + number" where
  "num_truediv a b =
     (case (as_int a, as_int b) of
        (Some i, Some j) \<Rightarrow> int_truediv i j
      | _ \<Rightarrow> float_op float_div a b)"

section \<open>Min-max normalisation\<close>

text \<open>
  The built-ins \<open>min\<close> and \<open>max\<close> keep the first element and replace it by a later one
  that compares strictly below (above) it. \<open>new_min\<close> and \<open>new_max\<close> are annotated
  \<open>float\<close>: they are numbers.
\<close>

fun min_loop :: "number \<Rightarrow> number list \<Rightarrow> number" where
  "min_loop current [] = current"
| "min_loop current (item # rest) =
     (if num_lt item current then min_loop item rest else min_loop current rest)"

fun max_loop :: "number \<Rightarrow> number list \<Rightarrow> number" where
  "max_loop current [] = current"
| "max_loop current (item # rest) =
     (if num_gt item current then max_loop item rest else max_loop current rest)"

text \<open>\<open>new_min + ((x - min_val) * (new_max - new_min)) / range_val\<close>, in Python's order.\<close>

definition rescale :: "number \<Rightarrow> number \<Rightarrow> number \<Rightarrow> number \<Rightarrow> number \<Rightarrow> error + number" where
  "rescale new_min new_max min_val range_val x =
     (case num_sub x min_val of
        Inl e \<Rightarrow> Inl e
      | Inr a \<Rightarrow>
          (case num_sub new_max new_min of
             Inl e \<Rightarrow> Inl e
           | Inr b \<Rightarrow>
               (case num_mul a b of
                  Inl e \<Rightarrow> Inl e
                | Inr c \<Rightarrow>
                    (case num_truediv c range_val of
                       Inl e \<Rightarrow> Inl e
                     | Inr d \<Rightarrow> num_add new_min d))))"

text \<open>A list comprehension whose expression may raise.\<close>

fun map_raising :: "('a \<Rightarrow> error + 'b) \<Rightarrow> 'a list \<Rightarrow> error + 'b list" where
  "map_raising f [] = Inr []"
| "map_raising f (x # xs) =
     (case f x of
        Inl e \<Rightarrow> Inl e
      | Inr y \<Rightarrow> (case map_raising f xs of Inl e \<Rightarrow> Inl e | Inr ys \<Rightarrow> Inr (y # ys)))"

definition normalize_min_max :: "pyval list \<Rightarrow> number \<Rightarrow> number \<Rightarrow> error + pyval list" where
  "normalize_min_max data new_min new_max =
     (if data = [] then Inr []
      else case numbers_of data of
             [] \<Rightarrow> Inr []
           | first # others \<Rightarrow>
               (let numeric_data = first # others;
                    min_val = min_loop first others;
                    max_val = max_loop first others
                in case num_sub max_val min_val of
                     Inl e \<Rightarrow> Inl e
                   | Inr range_val \<Rightarrow>
                       if num_eq range_val (NInt 0)
                       then Inr (map (\<lambda>x. PNum new_min) numeric_data)
                       else (case map_raising (rescale new_min new_max min_val range_val) numeric_data of
                               Inl e \<Rightarrow> Inl e
                             | Inr ys \<Rightarrow> Inr (map PNum ys))))"

text \<open>The exact linear rescaling of an integer \<open>i\<close> between \<open>lo\<close> and \<open>hi\<close>.\<close>

definition scaled :: "int \<Rightarrow> int \<Rightarrow> int \<Rightarrow> rat" where
  "scaled lo hi i = of_int (i - lo) / of_int (hi - lo)"

text \<open>
  A number that is exactly a double: every finite float is one, and so is an integer
  that converts to a float without rounding (any integer up to \<open>2^53\<close> in size).
\<close>

definition is_double :: "number \<Rightarrow> bool" where
  "is_double x = (case exact_value x of Finite r \<Rightarrow> round_to_double r = Finite r | _ \<Rightarrow> False)"

text \<open>A number that holds the difference \<open>d\<close>: exactly as an integer, or rounded as a float.\<close>

definition holds :: "number \<Rightarrow> rat \<Rightarrow> bool" where
  "holds a d = (case a of NInt k \<Rightarrow> of_int k = d
                         | NFloat f \<Rightarrow> f = round_to_double d
                         | NBool b \<Rightarrow> False)"

text \<open>
  What the specification asks of the result \<open>w\<close> for an element of value \<open>v\<close>, between
  the minimum \<open>lo\<close> and the maximum \<open>hi\<close>: it lies within \<open>[0, 1]\<close>, it is \<open>0\<close> at the
  minimum and \<open>1\<close> at the maximum, and it is the linear rescaling of \<open>v\<close> as floats
  compute it: the double nearest to the exact quotient, or the rounded quotient of the
  rounded differences.
\<close>

definition rescaled :: "rat \<Rightarrow> rat \<Rightarrow> rat \<Rightarrow> rat \<Rightarrow> bool" where
  "rescaled lo hi v w =
     (0 \<le> w \<and> w \<le> 1 \<and> (v = lo \<longrightarrow> w = 0) \<and> (v = hi \<longrightarrow> w = 1) \<and>
      (Finite w = round_to_double ((v - lo) / (hi - lo)) \<or>
       (case (round_to_double (v - lo), round_to_double (hi - lo)) of
          (Finite s, Finite r) \<Rightarrow> Finite w = round_to_double (s / r)
        | _ \<Rightarrow> False)))"

section \<open>Conversion to integers\<close>

text \<open>
  \<open>convert_to_integers\<close> appends \<open>int(float(item))\<close> and skips the item when that raises
  \<open>ValueError\<close> or \<open>TypeError\<close>. \<open>float\<close> of a string takes underscores between digits
  out, strips whitespace and reads a decimal literal (sign, digits, point, digits,
  exponent) or the words \<open>inf\<close>, \<open>infinity\<close> and \<open>nan\<close> in any case; the literal is
  rounded to the nearest double. A character of the model is a code point below 256.
\<close>

definition is_digit :: "char \<Rightarrow> bool" where
  "is_digit c = (48 \<le> (of_char c :: nat) \<and> (of_char c :: nat) \<le> 57)"

definition digits_value :: "string \<Rightarrow> int" where
  "digits_value ds = foldl (\<lambda>n c. 10 * n + ((of_char c :: int) - 48)) 0 ds"

definition is_space :: "char \<Rightarrow> bool" where
  "is_space c = ((of_char c :: nat) \<in> {9, 10, 11, 12, 13, 32, 133, 160})"

definition strip :: "string \<Rightarrow> string" where
  "strip s = rev (dropWhile is_space (rev (dropWhile is_space s)))"

fun underscores_ok :: "char \<Rightarrow> string \<Rightarrow> bool" where
  "underscores_ok prev [] = (prev \<noteq> CHR ''_'')"
| "underscores_ok prev (c # cs) =
     (if c = CHR ''_'' then is_digit prev \<and> underscores_ok c cs
      else (prev = CHR ''_'' \<longrightarrow> is_digit c) \<and> underscores_ok c cs)"

definition remove_underscores :: "string \<Rightarrow> string option" where
  "remove_underscores s =
     (if underscores_ok (CHR 0x00) s then Some (filter (\<lambda>c. c \<noteq> CHR ''_'') s) else None)"

fun parse_sign :: "string \<Rightarrow> bool \<times> string" where
  "parse_sign [] = (False, [])"
| "parse_sign (c # cs) =
     (if c = CHR ''-'' then (True, cs) else if c = CHR ''+'' then (False, cs) else (False, c # cs))"

definition parse_inf_or_nan :: "string \<Rightarrow> pyfloat option" where
  "parse_inf_or_nan s =
     (case parse_sign s of
        (negative, rest) \<Rightarrow>
          (let word = map ascii_lower_char rest
           in if word = ''inf'' \<or> word = ''infinity''
              then Some (if negative then NegInf else PosInf)
              else if word = ''nan'' then Some NaN
              else None))"

definition parse_exponent :: "string \<Rightarrow> int option" where
  "parse_exponent s =
     (case s of
        [] \<Rightarrow> Some 0
      | c # cs \<Rightarrow>
          if c = CHR ''e'' \<or> c = CHR ''E''
          then (case parse_sign cs of
                  (negative, ds) \<Rightarrow>
                    if ds \<noteq> [] \<and> list_all is_digit ds
                    then Some (if negative then - digits_value ds else digits_value ds)
                    else None)
          else None)"

definition parse_decimal :: "string \<Rightarrow> rat option" where
  "parse_decimal s =
     (case parse_sign s of
        (negative, rest) \<Rightarrow>
          (let int_part = takeWhile is_digit rest;
               after_int = dropWhile is_digit rest;
               has_point = (after_int \<noteq> [] \<and> hd after_int = CHR ''.'');
               frac_part = (if has_point then takeWhile is_digit (tl after_int) else []);
               after_frac = (if has_point then dropWhile is_digit (tl after_int) else after_int)
           in if int_part = [] \<and> frac_part = [] then None
              else case parse_exponent after_frac of
                     None \<Rightarrow> None
                   | Some e \<Rightarrow>
                       (let m = of_int (digits_value (int_part @ frac_part))
                                  * 10 powi (e - int (length frac_part))
                        in Some (if negative then - m else m))))"

text \<open>What a string denotes before rounding: a decimal number, or a special float.\<close>

datatype literal = Decimal rat | Special pyfloat

definition scan_float :: "string \<Rightarrow> literal option" where
  "scan_float s =
     (case remove_underscores s of
        None \<Rightarrow> None
      | Some t \<Rightarrow>
          (case parse_decimal (strip t) of
             Some q \<Rightarrow> Some (Decimal q)
           | None \<Rightarrow> map_option Special (parse_inf_or_nan (strip t))))"

definition float_of_string :: "string \<Rightarrow> pyfloat option" where
  "float_of_string s =
     (case scan_float s of
        None \<Rightarrow> None
      | Some (Decimal q) \<Rightarrow> Some (round_to_double q)
      | Some (Special f) \<Rightarrow> Some f)"

fun py_float :: "pyval \<Rightarrow> error + pyfloat" where
  "py_float PNone = Inl TypeError"
| "py_float (PList xs) = Inl TypeError"
| "py_float (PNum x) = to_float x"
| "py_float (PStr s) = (case float_of_string s of None \<Rightarrow> Inl ValueError | Some f \<Rightarrow> Inr f)"

text \<open>\<open>int\<close> of a float truncates toward zero; it raises on not-a-number and on infinities.\<close>

fun py_int :: "pyfloat \<Rightarrow> error + int" where
  "py_int (Finite r) = Inr (if 0 \<le> r then \<lfloor>r\<rfloor> else \<lceil>r\<rceil>)"
| "py_int NaN = Inl ValueError"
| "py_int PosInf = Inl OverflowError"
| "py_int NegInf = Inl OverflowError"

fun convert_loop :: "pyval list \<Rightarrow> pyval list \<Rightarrow> error + pyval list" where
  "convert_loop [] int_values = Inr int_values"
| "convert_loop (item # rest) int_values =
     (case (case py_float item of Inl e \<Rightarrow> Inl e | Inr f \<Rightarrow> py_int f) of
        Inr int_val \<Rightarrow> convert_loop rest (int_values @ [PNum (NInt int_val)])
      | Inl ValueError \<Rightarrow> convert_loop rest int_values
      | Inl TypeError \<Rightarrow> convert_loop rest int_values
      | Inl e \<Rightarrow> Inl e)"

definition convert_to_integers :: "pyval list \<Rightarrow> error + pyval list" where
  "convert_to_integers data = convert_loop data []"

section \<open>Properties of the cleaning functions\<close>

lemma in_missing_values_hashable: "hashable v \<Longrightarrow> in_missing_values v = Inr (v = PNone \<or> v = PStr [])"
  by (simp add: in_missing_values_def)

lemma is_nan_iff: "is_nan v \<longleftrightarrow> v = PNum (NFloat NaN)"
  by (auto simp: is_nan_def split: pyval.splits number.splits pyfloat.splits)

lemma remove_missing_loop_hashable:
  "list_all hashable data \<Longrightarrow>
   remove_missing_loop data acc = Inr (acc @ filter (\<lambda>v. \<not> is_missing v) data)"
proof (induction data arbitrary: acc)
  case Nil
  show ?case by simp
next
  case (Cons item rest)
  then have h: "hashable item" and r: "list_all hashable rest" by simp_all
  show ?case
    using Cons.IH [OF r] h
    by (auto simp: in_missing_values_hashable is_nan_iff is_missing_def)
qed

lemma filling_missing_loop_hashable:
  "list_all hashable data \<Longrightarrow>
   filling_missing_loop data v acc = Inr (acc @ map (\<lambda>x. if is_missing x then v else x) data)"
proof (induction data arbitrary: acc)
  case Nil
  show ?case by simp
next
  case (Cons item rest)
  then have h: "hashable item" and r: "list_all hashable rest" by simp_all
  show ?case
    using Cons.IH [OF r] h
    by (auto simp: in_missing_values_hashable is_nan_iff is_missing_def)
qed

lemma remove_missing_loop_unhashable:
  "\<not> list_all hashable data \<Longrightarrow> remove_missing_loop data acc = Inl TypeError"
proof (induction data arbitrary: acc)
  case Nil
  then show ?case by simp
next
  case (Cons item rest)
  show ?case
  proof (cases "hashable item")
    case True
    with Cons.prems have "\<not> list_all hashable rest" by simp
    from Cons.IH [OF this] True show ?thesis
      by (simp add: in_missing_values_hashable split: bool.splits)
  next
    case False
    then show ?thesis by (simp add: in_missing_values_def)
  qed
qed

lemma filling_missing_loop_unhashable:
  "\<not> list_all hashable data \<Longrightarrow> filling_missing_loop data v acc = Inl TypeError"
proof (induction data arbitrary: acc)
  case Nil
  then show ?case by simp
next
  case (Cons item rest)
  show ?case
  proof (cases "hashable item")
    case True
    with Cons.prems have "\<not> list_all hashable rest" by simp
    from Cons.IH [OF this] True show ?thesis
      by (simp add: in_missing_values_hashable split: bool.splits)
  next
    case False
    then show ?thesis by (simp add: in_missing_values_def)
  qed
qed

lemma remove_missing_values_eq:
  "remove_missing_values data =
     (if list_all hashable data then Inr (filter (\<lambda>v. \<not> is_missing v) data) else Inl TypeError)"
  by (simp add: remove_missing_values_def remove_missing_loop_hashable remove_missing_loop_unhashable)

lemma filling_missing_values_eq:
  "filling_missing_values data v =
     (if list_all hashable data then Inr (map (\<lambda>x. if is_missing x then v else x) data)
      else Inl TypeError)"
  by (simp add: filling_missing_values_def filling_missing_loop_hashable
        filling_missing_loop_unhashable)

lemma fromkeys_loop_hashable:
  "list_all (\<lambda>x. hashable (snd x)) data \<Longrightarrow>
   fromkeys_loop data keys =
     Inr (keys @ first_occurrences (filter (\<lambda>y. \<not> list_ex (\<lambda>k. key_eq k y) keys) data))"
proof (induction data arbitrary: keys)
  case Nil
  show ?case by simp
next
  case (Cons item rest)
  then have r: "list_all (\<lambda>x. hashable (snd x)) rest" and h: "hashable (snd item)"
    by simp_all
  show ?case
  proof (cases "list_ex (\<lambda>k. key_eq k item) keys")
    case True
    then show ?thesis
      using Cons.IH [OF r, of keys] h by (simp add: dict_set_key_def)
  next
    case False
    have "filter (\<lambda>y. \<not> list_ex (\<lambda>k. key_eq k y) (keys @ [item])) rest =
          filter (\<lambda>y. \<not> key_eq item y) (filter (\<lambda>y. \<not> list_ex (\<lambda>k. key_eq k y) keys) rest)"
      by (induction rest) auto
    then show ?thesis
      using False Cons.IH [OF r, of "keys @ [item]"] h by (simp add: dict_set_key_def)
  qed
qed

lemma fromkeys_loop_unhashable:
  "\<not> list_all (\<lambda>x. hashable (snd x)) data \<Longrightarrow> fromkeys_loop data keys = Inl TypeError"
proof (induction data arbitrary: keys)
  case Nil
  then show ?case by simp
next
  case (Cons item rest)
  show ?case
  proof (cases "hashable (snd item)")
    case True
    with Cons.prems have "\<not> list_all (\<lambda>x. hashable (snd x)) rest" by simp
    from Cons.IH [OF this] True show ?thesis
      by (simp add: dict_set_key_def)
  next
    case False
    then show ?thesis by (simp add: dict_set_key_def)
  qed
qed

lemma flatten_loop_eq: "flatten_loop data acc = acc @ concat (map splice data)"
proof (induction data arbitrary: acc)
  case Nil
  show ?case by simp
next
  case (Cons item rest)
  show ?case by (cases item) (simp_all add: Cons.IH)
qed

lemma concat_splice_flat: "list_all (\<lambda>v. \<not> is_list v) data \<Longrightarrow> concat (map splice data) = data"
proof (induction data)
  case Nil
  show ?case by simp
next
  case (Cons item rest)
  then show ?case by (cases item) simp_all
qed

lemma clip_loop_eq:
  "clip_loop data mn mx acc = acc @ map (\<lambda>x. PNum (clip_one mn mx x)) (numbers_of data)"
proof (induction data arbitrary: acc)
  case Nil
  show ?case by simp
next
  case (Cons item rest)
  show ?case by (cases item) (simp_all add: Cons.IH clip_one_def)
qed

lemma num_le_not_gt: "num_le a b \<Longrightarrow> \<not> num_gt a b"
  by (cases "exact_value a"; cases "exact_value b")
     (auto simp: num_le_def num_gt_def num_lt_def num_eq_def float_eq_def)

lemma clip_one_in_range:
  "num_le mn mx \<Longrightarrow> exact_value x \<noteq> NaN \<Longrightarrow> in_range mn mx (clip_one mn mx x)"
  by (cases "exact_value mn"; cases "exact_value mx"; cases "exact_value x")
     (auto simp: in_range_def clip_one_def num_le_def num_gt_def num_lt_def num_eq_def float_eq_def)

lemma clip_one_nan: "exact_value x = NaN \<Longrightarrow> clip_one mn mx x = x"
  by (cases "exact_value mn"; cases "exact_value mx")
     (auto simp: clip_one_def num_gt_def num_lt_def)

lemma exact_value_nan: "exact_value x = NaN \<longleftrightarrow> x = NFloat NaN"
  by (cases x) auto

section \<open>Settled properties: cleaning\<close>

text \<open>
  C4, as amended. For every sequence none of whose elements is unhashable (a nested
  list), \<open>remove_missing_values\<close> returns the sequence without exactly the elements
  classified as missing (\<open>None\<close>, the empty string, a not-a-number float), the others
  in their original order; zero and boolean false are not missing.
\<close>

theorem remove_missing_values_omits_missing:
  assumes "list_all hashable data"
  shows "remove_missing_values data = Inr (filter (\<lambda>v. \<not> is_missing v) data) \<and>
         \<not> is_missing (PNum (NInt 0)) \<and> \<not> is_missing (PNum (NBool False))"
  using assms by (simp add: remove_missing_values_eq is_missing_def)

text \<open>The scenario \<open>[10, None, 20.5, "", "text", NaN, 30]\<close> of the specification.\<close>

theorem remove_missing_values_omits_missing_witness:
  "remove_missing_values
     [PNum (NInt 10), PNone, PNum (NFloat (Finite (41 / 2))), PStr [], PStr ''text'',
      PNum (NFloat NaN), PNum (NInt 30)] =
   Inr [PNum (NInt 10), PNum (NFloat (Finite (41 / 2))), PStr ''text'', PNum (NInt 30)]"
  using remove_missing_values_omits_missing
    [of "[PNum (NInt 10), PNone, PNum (NFloat (Finite (41 / 2))), PStr [], PStr ''text'',
          PNum (NFloat NaN), PNum (NInt 30)]"]
  by (simp add: is_missing_def)

text \<open>
  C4 as stated ("for every sequence") fails on a sequence with a nested list: the
  membership test hashes the list and the call raises instead of returning.
\<close>

theorem remove_missing_values_nested_list_counterexample:
  "remove_missing_values [PNum (NInt 10), PList [PNum (NInt 1), PNum (NInt 2)]] = Inl TypeError \<and>
   remove_missing_values [PNum (NInt 10), PList [PNum (NInt 1), PNum (NInt 2)]] \<noteq>
     Inr (filter (\<lambda>v. \<not> is_missing v) [PNum (NInt 10), PList [PNum (NInt 1), PNum (NInt 2)]])"
  by (simp add: remove_missing_values_def in_missing_values_def is_nan_def)

text \<open>
  C1, as amended. For every sequence \<open>S\<close> and fill value \<open>v\<close> without unhashable values,
  filling and then removing keeps every non-missing element of \<open>S\<close> in order, and which
  positions are removed depends on \<open>v\<close>: when \<open>v\<close> is itself a missing marker, exactly
  the missing positions of \<open>S\<close> are removed (the result is that of removing from \<open>S\<close>);
  when \<open>v\<close> is not missing, no position is removed (the result is the filled list).
\<close>

theorem fill_then_remove:
  assumes "list_all hashable S" and "hashable v"
  shows "then_call (filling_missing_values S v) remove_missing_values =
           Inr (if is_missing v then filter (\<lambda>x. \<not> is_missing x) S
                else map (\<lambda>x. if is_missing x then v else x) S)"
proof -
  let ?filled = "map (\<lambda>x. if is_missing x then v else x) S"
  have h: "list_all hashable ?filled"
    using assms by (induction S) auto
  have "then_call (filling_missing_values S v) remove_missing_values =
        Inr (filter (\<lambda>x. \<not> is_missing x) ?filled)"
    using assms(1) h by (simp add: then_call_def filling_missing_values_eq remove_missing_values_eq)
  moreover have "filter (\<lambda>x. \<not> is_missing x) ?filled =
        (if is_missing v then filter (\<lambda>x. \<not> is_missing x) S else ?filled)"
    by (induction S) auto
  ultimately show ?thesis by simp
qed

theorem fill_then_remove_witness:
  "then_call (filling_missing_values [PNum (NInt 10), PNone, PStr [], PNum (NFloat NaN)] (PStr []))
     remove_missing_values = Inr [PNum (NInt 10)] \<and>
   then_call (filling_missing_values [PNum (NInt 10), PNone, PStr [], PNum (NFloat NaN)] (PNum (NInt 7)))
     remove_missing_values = Inr [PNum (NInt 10), PNum (NInt 7), PNum (NInt 7), PNum (NInt 7)]"
  using fill_then_remove [of "[PNum (NInt 10), PNone, PStr [], PNum (NFloat NaN)]" "PStr []"]
    fill_then_remove [of "[PNum (NInt 10), PNone, PStr [], PNum (NFloat NaN)]" "PNum (NInt 7)"]
  by (simp add: is_missing_def)

text \<open>
  C1 as stated fails: on \<open>[10, None]\<close> the fill value \<open>0\<close> leaves nothing to remove
  (two elements come back), the fill value \<open>None\<close> has position 1 removed (one element
  comes back). The removed positions depend on the fill value.
\<close>

theorem fill_then_remove_depends_on_fill_counterexample:
  "then_call (filling_missing_values [PNum (NInt 10), PNone] (PNum (NInt 0))) remove_missing_values =
     Inr [PNum (NInt 10), PNum (NInt 0)] \<and>
   then_call (filling_missing_values [PNum (NInt 10), PNone] PNone) remove_missing_values =
     Inr [PNum (NInt 10)] \<and>
   returned_length
     (then_call (filling_missing_values [PNum (NInt 10), PNone] (PNum (NInt 0))) remove_missing_values) \<noteq>
   returned_length
     (then_call (filling_missing_values [PNum (NInt 10), PNone] PNone) remove_missing_values)"
  by (simp add: then_call_def returned_length_def filling_missing_values_def
        remove_missing_values_def in_missing_values_def is_nan_def)

text \<open>
  C9. Every input with an unhashable element (a nested list) makes
  \<open>remove_missing_values\<close>, \<open>filling_missing_values\<close> and \<open>remove_duplicated_values\<close>
  raise a type error instead of returning; the witness is such an input.
\<close>

theorem unhashable_element_raises:
  assumes "\<not> list_all (\<lambda>x. hashable (snd x)) data"
  shows "remove_missing_values (map snd data) = Inl TypeError \<and>
         filling_missing_values (map snd data) fill_value = Inl TypeError \<and>
         remove_duplicated_values data = Inl TypeError"
proof -
  have "\<not> list_all hashable (map snd data)"
    using assms by (simp add: list_all_iff)
  then show ?thesis
    using assms
    by (simp add: remove_missing_values_eq filling_missing_values_eq
          remove_duplicated_values_def fromkeys_loop_unhashable)
qed

theorem unhashable_element_raises_witness:
  "remove_missing_values [PNum (NInt 1), PList [PNum (NInt 2), PNum (NInt 3)]] = Inl TypeError \<and>
   filling_missing_values [PNum (NInt 1), PList [PNum (NInt 2), PNum (NInt 3)]] (PNum (NInt 0)) =
     Inl TypeError \<and>
   remove_duplicated_values [(0, PNum (NInt 1)), (1, PList [PNum (NInt 2), PNum (NInt 3)])] =
     Inl TypeError"
  using unhashable_element_raises
    [of "[(0, PNum (NInt 1)), (1, PList [PNum (NInt 2), PNum (NInt 3)])]" "PNum (NInt 0)"]
  by simp

text \<open>
  C10. \<open>remove_duplicated_values\<close> keeps the first occurrence of each key in the
  original order, a key being found by Python's own equality: the integer 10 and the
  float 10.0 are one key, and so are \<open>True\<close> and the integer 1, whatever objects hold
  them.
\<close>

theorem remove_duplicated_values_first_occurrence:
  "remove_duplicated_values data =
     (if list_all (\<lambda>x. hashable (snd x)) data then Inr (first_occurrences data)
      else Inl TypeError) \<and>
   key_eq (i, PNum (NInt 10)) (j, PNum (NFloat (Finite 10))) \<and>
   key_eq (i, PNum (NBool True)) (j, PNum (NInt 1))"
proof -
  have "list_all (\<lambda>x. hashable (snd x)) data \<Longrightarrow>
        remove_duplicated_values data = Inr (first_occurrences data)"
    using fromkeys_loop_hashable [of data "[]"] by (simp add: remove_duplicated_values_def)
  then show ?thesis
    by (simp add: remove_duplicated_values_def fromkeys_loop_unhashable key_eq_def num_eq_def
          float_eq_def)
qed

theorem remove_duplicated_values_first_occurrence_witness:
  "remove_duplicated_values
     [(0, PNum (NInt 10)), (1, PNum (NFloat (Finite 10))), (2, PNum (NBool True)),
      (3, PNum (NInt 1)), (4, PStr ''a''), (5, PNum (NInt 10))] =
   Inr [(0, PNum (NInt 10)), (2, PNum (NBool True)), (4, PStr ''a'')]"
  using remove_duplicated_values_first_occurrence
    [of "[(0, PNum (NInt 10)), (1, PNum (NFloat (Finite 10))), (2, PNum (NBool True)),
          (3, PNum (NInt 1)), (4, PStr ''a''), (5, PNum (NInt 10))]"]
  by (simp add: key_eq_def num_eq_def float_eq_def)

section \<open>Settled properties: clipping\<close>

text \<open>
  C3, as amended. \<open>clip_values\<close> raises the invalid-argument error exactly when
  \<open>min_val > max_val\<close>; otherwise it returns, in order, every number of the input
  clipped (below \<open>min_val\<close> it becomes \<open>min_val\<close>, above \<open>max_val\<close> it becomes \<open>max_val\<close>,
  else it is unchanged), elements that are not numbers being dropped. When
  \<open>min_val <= max_val\<close>, every element of the result other than a not-a-number float
  lies within the range; a not-a-number float is passed through unchanged.
\<close>

theorem clip_values_clips:
  "clip_values data min_val max_val =
     (if num_gt min_val max_val then Inl ValueError
      else Inr (map (\<lambda>x. PNum (clip_one min_val max_val x)) (numbers_of data))) \<and>
   (num_le min_val max_val \<longrightarrow>
      \<not> num_gt min_val max_val \<and>
      (\<forall>x \<in> set (numbers_of data).
         if x = NFloat NaN then clip_one min_val max_val x = x
         else in_range min_val max_val (clip_one min_val max_val x)))"
proof -
  have "clip_values data min_val max_val =
     (if num_gt min_val max_val then Inl ValueError
      else Inr (map (\<lambda>x. PNum (clip_one min_val max_val x)) (numbers_of data)))"
    by (simp add: clip_values_def clip_loop_eq)
  moreover have "num_le min_val max_val \<Longrightarrow> \<not> num_gt min_val max_val"
    by (rule num_le_not_gt)
  moreover have "num_le min_val max_val \<Longrightarrow> x \<noteq> NFloat NaN \<Longrightarrow>
      in_range min_val max_val (clip_one min_val max_val x)" for x
    by (simp add: clip_one_in_range exact_value_nan)
  moreover have "clip_one min_val max_val (NFloat NaN) = NFloat NaN"
    by (simp add: clip_one_nan)
  ultimately show ?thesis by simp
qed

theorem clip_values_clips_witness:
  "clip_values [PNum (NInt 5), PStr ''skip'', PNum (NFloat (Finite (3 / 2))), PNum (NInt 25)]
     (NInt 1) (NInt 20) =
   Inr [PNum (NInt 5), PNum (NFloat (Finite (3 / 2))), PNum (NInt 20)] \<and>
   clip_values [PNum (NInt 5)] (NInt 2) (NInt 1) = Inl ValueError \<and>
   in_range (NInt 1) (NInt 20) (clip_one (NInt 1) (NInt 20) (NInt 25))"
  using clip_values_clips
    [of "[PNum (NInt 5), PStr ''skip'', PNum (NFloat (Finite (3 / 2))), PNum (NInt 25)]"
        "NInt 1" "NInt 20"]
    clip_values_clips [of "[PNum (NInt 5)]" "NInt 2" "NInt 1"]
  by (simp add: clip_one_def num_le_def num_gt_def num_lt_def num_eq_def float_eq_def)

text \<open>
  C3 as stated fails on a not-a-number element: it is a float, so it is not dropped,
  it is neither below \<open>min_val\<close> nor above \<open>max_val\<close>, so it is kept, and it does not lie
  within \<open>[0, 1]\<close>.
\<close>

theorem clip_values_nan_counterexample:
  "clip_values [PNum (NFloat NaN)] (NInt 0) (NInt 1) = Inr [PNum (NFloat NaN)] \<and>
   num_le (NInt 0) (NInt 1) \<and>
   \<not> in_range (NInt 0) (NInt 1) (NFloat NaN)"
  by (simp add: clip_values_def in_range_def num_le_def num_gt_def num_lt_def num_eq_def
        float_eq_def)

section \<open>Settled properties: flattening\<close>

text \<open>
  C8. \<open>flatten_list\<close> splices exactly one level of nesting: each top-level element
  that is a list contributes its own elements, every other element itself; on a
  sequence none of whose elements is a list the result is the sequence unchanged.
\<close>

theorem flatten_list_splices_one_level:
  "flatten_list data = concat (map splice data) \<and>
   (list_all (\<lambda>v. \<not> is_list v) data \<longrightarrow> flatten_list data = data)"
  by (simp add: flatten_list_def flatten_loop_eq concat_splice_flat)

theorem flatten_list_splices_one_level_witness:
  "flatten_list [PNum (NInt 1), PList [PNum (NInt 2), PList [PNum (NInt 3)]], PStr ''x''] =
     [PNum (NInt 1), PNum (NInt 2), PList [PNum (NInt 3)], PStr ''x''] \<and>
   flatten_list [PNum (NInt 1), PNone, PStr ''x''] = [PNum (NInt 1), PNone, PStr ''x'']"
  using flatten_list_splices_one_level
    [of "[PNum (NInt 1), PList [PNum (NInt 2), PList [PNum (NInt 3)]], PStr ''x'']"]
    flatten_list_splices_one_level [of "[PNum (NInt 1), PNone, PStr ''x'']"]
  by simp

section \<open>Settled properties: shuffling\<close>

lemma swap_items_mset: "swap_items x i j = Inr x' \<Longrightarrow> mset x' = mset x"
  by (auto simp: swap_items_def mset_swap split: if_splits)

lemma swap_items_length: "swap_items x i j = Inr x' \<Longrightarrow> length x' = length x"
  by (auto simp: swap_items_def split: if_splits)

lemma shuffle_loop_permutes:
  "in_bounds randbelow \<Longrightarrow> n < length x \<Longrightarrow>
   \<exists>ys g'. shuffle_loop randbelow n x g = Inr (ys, g') \<and> mset ys = mset x"
proof (induction n arbitrary: x g)
  case 0
  show ?case by simp
next
  case (Suc n)
  obtain j g1 where r: "randbelow (Suc n + 1) g = (j, g1)" by (cases "randbelow (Suc n + 1) g")
  have "fst (randbelow (Suc n + 1) g) < Suc n + 1"
    using Suc.prems(1) unfolding in_bounds_def by blast
  with r Suc.prems(2) have j: "j < length x" by simp
  then obtain x' where s: "swap_items x (Suc n) j = Inr x'"
    using Suc.prems(2) by (simp add: swap_items_def)
  have "n < length x'" using swap_items_length [OF s] Suc.prems(2) by simp
  from Suc.IH [OF Suc.prems(1) this, of g1] swap_items_mset [OF s] r s
  show ?case by auto
qed

lemma random_shuffle_permutes:
  "in_bounds randbelow \<Longrightarrow> \<exists>ys g'. random_shuffle randbelow x g = Inr (ys, g') \<and> mset ys = mset x"
proof (cases x)
  case Nil
  then show ?thesis by (simp add: random_shuffle_def)
next
  case (Cons a as)
  assume "in_bounds randbelow"
  from shuffle_loop_permutes [OF this, of "length x - 1" x g] Cons
  show ?thesis by (simp add: random_shuffle_def)
qed

lemma lcg_in_bounds: "in_bounds lcg_randbelow"
  by (simp add: in_bounds_def lcg_randbelow_def Let_def)

text \<open>
  C6. A seeded call does not depend on the state the generator was in: two calls with
  the same seed and the same input return the same list (and leave the same state),
  whatever happened before. With a generator that keeps its promise the call returns,
  seeded or not, and the result holds the elements of the input, each as often.
\<close>

theorem shuffle_list_seeded:
  "shuffle_list random_seed randbelow data (Some s) g1 =
     shuffle_list random_seed randbelow data (Some s) g2 \<and>
   (in_bounds randbelow \<longrightarrow>
      (\<exists>ys g'. shuffle_list random_seed randbelow data seed g = Inr (ys, g') \<and>
                mset ys = mset data))"
  using random_shuffle_permutes [of randbelow data]
  by (simp add: shuffle_list_def)

theorem shuffle_list_seeded_witness:
  "in_bounds lcg_randbelow \<and>
   shuffle_list lcg_seed lcg_randbelow [PNum (NInt 1), PNum (NInt 2), PNum (NInt 3), PNum (NInt 4)] (Some 42) 7 =
   shuffle_list lcg_seed lcg_randbelow [PNum (NInt 1), PNum (NInt 2), PNum (NInt 3), PNum (NInt 4)] (Some 42) 99 \<and>
   (\<exists>ys g'. shuffle_list lcg_seed lcg_randbelow [PNum (NInt 1), PNum (NInt 2), PNum (NInt 3), PNum (NInt 4)] (Some 42) 7 = Inr (ys, g') \<and>
       mset ys = mset [PNum (NInt 1), PNum (NInt 2), PNum (NInt 3), PNum (NInt 4)])"
proof -
  have b: "in_bounds lcg_randbelow" by (rule lcg_in_bounds)
  from shuffle_list_seeded [where random_seed = lcg_seed and randbelow = lcg_randbelow
      and data = "[PNum (NInt 1), PNum (NInt 2), PNum (NInt 3), PNum (NInt 4)]"
      and s = 42 and ?g1.0 = 7 and ?g2.0 = 99 and seed = "Some 42" and g = 7] b
  show ?thesis by blast
qed

section \<open>Settled properties: tokenizing\<close>

lemma match_word_at_none:
  assumes "pos \<le> length text" and "pos = length text \<or> \<not> w (text ! pos)"
  shows "match_word_at w text pos = None"
proof -
  have "takeWhile w (drop pos text) = []"
  proof (cases "pos = length text")
    case True
    then show ?thesis by simp
  next
    case False
    with assms have "pos < length text" and "\<not> w (text ! pos)" by simp_all
    then show ?thesis by (simp add: Cons_nth_drop_Suc [symmetric])
  qed
  then show ?thesis by (simp add: match_word_at_def)
qed

lemma match_word_at_word:
  assumes "pos < length text" and "w (text ! pos)" and "pos = 0 \<or> \<not> w (text ! (pos - 1))"
  shows "match_word_at w text pos = Some (pos + length (takeWhile w (drop pos text)))"
proof -
  let ?xs = "drop pos text"
  let ?k = "length (takeWhile w ?xs)"
  have xs: "?xs = text ! pos # drop (Suc pos) text"
    using assms(1) by (simp add: Cons_nth_drop_Suc)
  then have kpos: "0 < ?k" using assms(2) by simp
  then obtain n where n: "?k = Suc n" by (cases ?k) auto
  have kle: "?k \<le> length ?xs" by (rule length_takeWhile_le)
  then have le: "pos + ?k \<le> length text" using assms(1) by simp
  have "n < ?k" using n by simp
  then have "w (takeWhile w ?xs ! n)" by (metis nth_mem set_takeWhileD)
  moreover have "takeWhile w ?xs ! n = ?xs ! n" using \<open>n < ?k\<close> by (rule takeWhile_nth)
  moreover have "?xs ! n = text ! (pos + n)" using le n by simp
  ultimately have last_word: "w (text ! (pos + ?k - 1))" using n by simp
  have after: "\<not> (pos + ?k < length text \<and> w (text ! (pos + ?k)))"
  proof
    assume a: "pos + ?k < length text \<and> w (text ! (pos + ?k))"
    then have "?k < length ?xs" by (simp add: less_diff_conv add.commute)
    then have "\<not> w (?xs ! ?k)" by (rule nth_length_takeWhile)
    moreover have "?xs ! ?k = text ! (pos + ?k)" using a by simp
    ultimately show False using a by simp
  qed
  have b0: "at_boundary w text pos"
    using assms by (auto simp: at_boundary_def)
  have b1: "at_boundary w text (pos + Suc n)"
    using last_word after le n by (auto simp: at_boundary_def)
  show ?thesis
    using b0 b1 n by (simp add: match_word_at_def)
qed

lemma word_runs_skip: "\<not> w c \<Longrightarrow> word_runs w (c # cs) = word_runs w cs"
  by (simp add: word_runs.simps [of w "c # cs"] word_runs.simps [of w cs])

lemma word_runs_take: "w c \<Longrightarrow>
  word_runs w (c # cs) = takeWhile w (c # cs) # word_runs w (dropWhile w (c # cs))"
  by (simp add: word_runs.simps [of w "c # cs"])

lemma word_runs_Nil: "word_runs w [] = []"
  by (simp add: word_runs.simps)

lemma findall_from_word_runs:
  "pos = 0 \<or> length s \<le> pos \<or> \<not> w (s ! (pos - 1)) \<or> \<not> w (s ! pos) \<Longrightarrow>
   findall_from w s pos = word_runs w (drop pos s)"
proof (induction w s pos rule: findall_from.induct)
  case (1 w s pos)
  show ?case
  proof (cases "length s < pos")
    case True
    then show ?thesis by (simp add: findall_from.simps [of w s pos] word_runs_Nil)
  next
    case False
    then have le: "pos \<le> length s" by simp
    show ?thesis
    proof (cases "pos = length s \<or> \<not> w (s ! pos)")
      case True
      then have m: "match_word_at w s pos = None" using le by (simp add: match_word_at_none)
      have ih: "findall_from w s (pos + 1) = word_runs w (drop (pos + 1) s)"
        using "1.IH"(1) [OF False m] True le by auto
      have "word_runs w (drop pos s) = word_runs w (drop (pos + 1) s)"
      proof (cases "pos = length s")
        case True
        then show ?thesis by simp
      next
        case False
        with True le have "pos < length s" and "\<not> w (s ! pos)" by simp_all
        then show ?thesis by (simp add: Cons_nth_drop_Suc [symmetric] word_runs_skip)
      qed
      then show ?thesis using False m ih by (simp add: findall_from.simps [of w s pos])
    next
      case notend: False
      then have lt: "pos < length s" and wc: "w (s ! pos)" using le by simp_all
      let ?xs = "drop pos s"
      let ?k = "length (takeWhile w ?xs)"
      have prev: "pos = 0 \<or> \<not> w (s ! (pos - 1))" using "1.prems" lt wc by auto
      have m: "match_word_at w s pos = Some (pos + ?k)"
        using lt wc prev by (rule match_word_at_word)
      have xs: "?xs = s ! pos # drop (Suc pos) s" using lt by (simp add: Cons_nth_drop_Suc)
      have kpos: "0 < ?k" using xs wc by simp
      have inv: "pos + ?k = 0 \<or> length s \<le> pos + ?k \<or> \<not> w (s ! (pos + ?k - 1)) \<or> \<not> w (s ! (pos + ?k))"
      proof (cases "pos + ?k < length s")
        case True
        then have "?k < length ?xs" by (simp add: less_diff_conv add.commute)
        then have "\<not> w (?xs ! ?k)" by (rule nth_length_takeWhile)
        moreover have "?xs ! ?k = s ! (pos + ?k)" using True by simp
        ultimately show ?thesis by simp
      next
        case False
        then show ?thesis by simp
      qed
      have ih: "findall_from w s (pos + ?k) = word_runs w (drop (pos + ?k) s)"
        using "1.IH"(2) [OF False m inv] .
      have tk: "take ?k ?xs = takeWhile w ?xs" by (simp add: takeWhile_eq_take [symmetric])
      have dk: "drop (pos + ?k) s = dropWhile w ?xs"
        by (simp add: dropWhile_eq_drop add.commute)
      have "word_runs w ?xs = takeWhile w ?xs # word_runs w (dropWhile w ?xs)"
        using wc by (subst xs, subst word_runs_take) (simp_all add: xs [symmetric])
      then show ?thesis
        using False m ih tk dk by (simp add: findall_from.simps [of w s pos])
    qed
  qed
qed

lemma filter_split_run: "filter P xs = takeWhile P xs @ filter P (dropWhile P xs)"
  by (induction xs) auto

lemma word_runs_props:
  "concat (word_runs w s) = filter w s \<and> (\<forall>t \<in> set (word_runs w s). t \<noteq> [] \<and> list_all w t)"
proof (induction w s rule: word_runs.induct)
  case (1 w s)
  show ?case
  proof (cases "dropWhile (\<lambda>c. \<not> w c) s")
    case Nil
    have r: "word_runs w s = []"
      by (subst word_runs.simps) (simp only: Nil list.case)
    have "\<forall>x \<in> set s. \<not> w x" using Nil by (simp add: dropWhile_eq_Nil_conv)
    then have "filter w s = []" by (simp add: filter_empty_conv)
    then show ?thesis using r by simp
  next
    case (Cons c cs)
    have wc: "w c" using Cons hd_dropWhile [of "\<lambda>c. \<not> w c" s] by (metis list.sel(1) list.distinct(1))
    have r: "word_runs w s = takeWhile w (c # cs) # word_runs w (dropWhile w (c # cs))"
      by (subst word_runs.simps) (simp only: Cons list.case)
    have "filter w (takeWhile (\<lambda>c. \<not> w c) s) = []"
      by (auto simp: filter_empty_conv dest: set_takeWhileD)
    moreover have "filter w s =
        filter w (takeWhile (\<lambda>c. \<not> w c) s) @ filter w (dropWhile (\<lambda>c. \<not> w c) s)"
      by (simp only: filter_append [symmetric] takeWhile_dropWhile_id)
    ultimately have f: "filter w s = filter w (c # cs)"
      by (simp only: Cons append_Nil)
    have g: "filter w (c # cs) = takeWhile w (c # cs) @ filter w (dropWhile w (c # cs))"
      by (rule filter_split_run)
    have t: "takeWhile w (c # cs) \<noteq> [] \<and> list_all w (takeWhile w (c # cs))"
      using wc by (auto simp: list_all_iff dest: set_takeWhileD)
    show ?thesis
      using "1.IH" [OF Cons] t unfolding r f g by simp
  qed
qed

text \<open>
  C7. On anything but a string \<open>tokenize_text\<close> returns the empty string. On a string it
  lower-cases the text and joins with single spaces the maximal runs of word
  characters (alphanumeric or underscore), in order; the runs are not empty, hold word
  characters only, and together are the word characters of the text, so that
  punctuation and whitespace are gone.
\<close>

theorem tokenize_text_words:
  "tokenize_text lower word_char v =
     (case v of PStr s \<Rightarrow> join_space (word_runs word_char (lower s)) | _ \<Rightarrow> []) \<and>
   concat (word_runs word_char s) = filter word_char s \<and>
   (\<forall>t \<in> set (word_runs word_char s). t \<noteq> [] \<and> list_all word_char t)"
proof -
  have "findall_from word_char t 0 = word_runs word_char t" for t
    using findall_from_word_runs [of 0 t word_char] by simp
  then have "tokenize_text lower word_char v =
     (case v of PStr s \<Rightarrow> join_space (word_runs word_char (lower s)) | _ \<Rightarrow> [])"
    by (simp add: tokenize_text_def split: pyval.splits)
  then show ?thesis using word_runs_props [of word_char s] by simp
qed

theorem tokenize_text_words_witness:
  "tokenize_text ascii_lower ascii_word_char (PStr ''Hola, mundo! 1 prueba.'') =
     ''hola mundo 1 prueba'' \<and>
   tokenize_text ascii_lower ascii_word_char (PNum (NInt 5)) = []"
proof -
  have e: "join_space (word_runs ascii_word_char (ascii_lower ''Hola, mundo! 1 prueba.'')) =
      ''hola mundo 1 prueba''"
    by code_simp
  from tokenize_text_words [of ascii_lower ascii_word_char "PStr ''Hola, mundo! 1 prueba.''"]
    tokenize_text_words [of ascii_lower ascii_word_char "PNum (NInt 5)"] e
  show ?thesis by simp
qed

section \<open>Rounding to a double\<close>

lemma floor_rat_numeral: "\<lfloor>(numeral a :: rat) / numeral b\<rfloor> = numeral a div numeral b"
  using floor_divide_of_int_eq [of "numeral a" "numeral b", where ?'a = rat] by simp

lemma rhe_of_int: "round_half_even (of_int m) = m"
  by (simp add: round_half_even_def)

lemma rhe_cases: "round_half_even x = \<lfloor>x\<rfloor> \<or> round_half_even x = \<lfloor>x\<rfloor> + 1"
  by (simp add: round_half_even_def Let_def)

lemma rhe_ge: "of_int m \<le> x \<Longrightarrow> m \<le> round_half_even x"
  using rhe_cases [of x] le_floor_iff [of m x] by linarith

lemma rhe_le: "x \<le> of_int m \<Longrightarrow> round_half_even x \<le> m"
proof -
  assume a: "x \<le> of_int m"
  show ?thesis
  proof (cases "x = of_int m")
    case True
    then show ?thesis by (simp add: rhe_of_int)
  next
    case False
    with a have "x < of_int m" by simp
    then have "\<lfloor>x\<rfloor> < m" by (simp add: floor_less_iff)
    then show ?thesis using rhe_cases [of x] by linarith
  qed
qed

lemma binary_exponent_bounds:
  assumes "q \<noteq> 0"
  shows "2 powi (binary_exponent q) \<le> \<bar>q\<bar> \<and> \<bar>q\<bar> < 2 powi (binary_exponent q + 1)"
proof (cases "1 \<le> \<bar>q\<bar>")
  case True
  let ?n = "\<lfloor>\<bar>q\<bar>\<rfloor>"
  have n: "0 < ?n" using True by simp
  have e: "binary_exponent q = bitlen ?n - 1" using True by (simp add: binary_exponent_def)
  have b1: "1 \<le> bitlen ?n" using n bitlen_eq_zero_iff [of ?n] bitlen_nonneg [of ?n] by linarith
  from bitlen_bounds [OF n] have lo: "2 ^ nat (bitlen ?n - 1) \<le> ?n" and hi: "?n < 2 ^ nat (bitlen ?n)"
    by simp_all
  have "(2::rat) powi (bitlen ?n - 1) = of_int (2 ^ nat (bitlen ?n - 1))"
    using b1 by (simp add: power_int_def)
  also have "\<dots> \<le> of_int ?n" using lo by (simp only: of_int_le_iff)
  also have "\<dots> \<le> \<bar>q\<bar>" by simp
  finally have l: "2 powi (binary_exponent q) \<le> \<bar>q\<bar>" using e by simp
  have "?n + 1 \<le> 2 ^ nat (bitlen ?n)" using hi by simp
  then have "(of_int (?n + 1) :: rat) \<le> of_int (2 ^ nat (bitlen ?n))" by (simp only: of_int_le_iff)
  moreover have "\<bar>q\<bar> < of_int (?n + 1)" using floor_correct [of "\<bar>q\<bar>"] by simp
  moreover have "(2::rat) powi (bitlen ?n) = of_int (2 ^ nat (bitlen ?n))"
    using b1 by (simp add: power_int_def)
  ultimately have "\<bar>q\<bar> < 2 powi (binary_exponent q + 1)" using e by simp
  with l show ?thesis by simp
next
  case False
  then have a1: "\<bar>q\<bar> < 1" and a0: "0 < \<bar>q\<bar>" using assms by simp_all
  let ?m = "\<lceil>1 / \<bar>q\<bar>\<rceil>"
  let ?k = "bitlen (?m - 1)"
  have inv: "1 < 1 / \<bar>q\<bar>" using a0 a1 by simp
  then have m: "0 < ?m - 1" by (simp add: less_ceiling_iff)
  have e: "binary_exponent q = - ?k" using False by (simp add: binary_exponent_def)
  have k1: "1 \<le> ?k" using m bitlen_eq_zero_iff [of "?m - 1"] bitlen_nonneg [of "?m - 1"] by linarith
  from bitlen_bounds [OF m] have lo: "2 ^ nat (?k - 1) \<le> ?m - 1" and hi: "?m - 1 < 2 ^ nat ?k"
    by simp_all
  have "1 / \<bar>q\<bar> \<le> of_int ?m" by simp
  also have "(of_int ?m :: rat) \<le> of_int (2 ^ nat ?k)" 
  proof -
    have "?m \<le> 2 ^ nat ?k" using hi by linarith
    then show ?thesis by (simp only: of_int_le_iff)
  qed
  finally have "1 / \<bar>q\<bar> \<le> 2 ^ nat ?k" by simp
  then have "1 \<le> 2 ^ nat ?k * \<bar>q\<bar>" using a0 by (simp add: field_simps)
  then have "1 / 2 ^ nat ?k \<le> \<bar>q\<bar>" by (simp add: field_simps)
  moreover have "(2::rat) powi (- ?k) = 1 / 2 ^ nat ?k"
    using k1 by (simp add: power_int_def field_simps)
  ultimately have l: "2 powi (binary_exponent q) \<le> \<bar>q\<bar>" using e by simp
  have "(of_int (2 ^ nat (?k - 1)) :: rat) \<le> of_int (?m - 1)" using lo by (simp only: of_int_le_iff)
  moreover have "of_int (?m - 1) < 1 / \<bar>q\<bar>" using ceiling_correct [of "1 / \<bar>q\<bar>"] by simp
  ultimately have "2 ^ nat (?k - 1) < 1 / \<bar>q\<bar>" by simp
  then have "2 ^ nat (?k - 1) * \<bar>q\<bar> < 1" using a0 by (simp add: field_simps)
  then have "\<bar>q\<bar> < 1 / 2 ^ nat (?k - 1)" by (simp add: field_simps)
  moreover have "(2::rat) powi (- ?k + 1) = 1 / 2 ^ nat (?k - 1)"
  proof -
    have "- ?k + 1 = - int (nat (?k - 1))" using k1 by simp
    then show ?thesis by (simp only: power_int_minus power_int_of_nat) (simp add: field_simps)
  qed
  ultimately have "\<bar>q\<bar> < 2 powi (binary_exponent q + 1)" using e by simp
  with l show ?thesis by simp
qed

lemma binary_exponent_less:
  assumes "q \<noteq> 0" and "\<bar>q\<bar> < 2 powi m"
  shows "binary_exponent q < m"
proof (rule ccontr)
  assume "\<not> binary_exponent q < m"
  then have "m \<le> binary_exponent q" by simp
  then have "(2::rat) powi m \<le> 2 powi (binary_exponent q)"
    by (intro power_int_increasing) simp_all
  with binary_exponent_bounds [OF assms(1)] assms(2) show False by linarith
qed

lemma binary_exponent_ge:
  assumes "q \<noteq> 0" and "2 powi m \<le> \<bar>q\<bar>"
  shows "m \<le> binary_exponent q"
proof (rule ccontr)
  assume "\<not> m \<le> binary_exponent q"
  then have "binary_exponent q + 1 \<le> m" by simp
  then have "(2::rat) powi (binary_exponent q + 1) \<le> 2 powi m"
    by (intro power_int_increasing) simp_all
  with binary_exponent_bounds [OF assms(1)] assms(2) show False by linarith
qed

lemma quantum_pos: "0 < quantum q"
  by (simp add: quantum_def)

lemma round_to_double_zero: "round_to_double 0 = Finite 0"
  using rhe_of_int [of 0] by (simp add: round_to_double_def nearest_multiple_def Let_def)

lemma round_to_double_exact_lt:
  assumes v: "v = of_int n * 2 powi k" and n: "\<bar>n\<bar> < 2 ^ 53" and k: "- 1074 \<le> k"
    and fin: "\<bar>v\<bar> < 2 ^ 1024"
  shows "round_to_double v = Finite v"
proof (cases "n = 0")
  case True
  then show ?thesis using v by (simp add: round_to_double_zero)
next
  case False
  have p: "(0::rat) < 2 powi k" by simp
  have v0: "v \<noteq> 0" using False v by simp
  have "\<bar>v\<bar> = of_int \<bar>n\<bar> * 2 powi k" using v by (simp add: abs_mult)
  also have "\<dots> < of_int (2 ^ 53) * 2 powi k"
    using n p by (intro mult_strict_right_mono) (simp_all only: of_int_less_iff)
  also have "\<dots> = 2 powi (k + 53)" by (simp add: power_int_add)
  finally have "binary_exponent v < k + 53" using v0 by (intro binary_exponent_less)
  then have k': "max (binary_exponent v) (- 1022) - 52 \<le> k" using k by simp
  define k' where "k' = max (binary_exponent v) (- 1022) - 52"
  have u: "quantum v = 2 powi k'" by (simp add: quantum_def k'_def)
  have le: "k' \<le> k" using k' by (simp add: k'_def)
  have "(2::rat) powi k = 2 powi (k - k') * 2 powi k'"
    by (simp add: power_int_add [symmetric])
  moreover have "(2::rat) powi (k - k') = of_int (2 ^ nat (k - k'))"
    using le by (simp add: power_int_def)
  ultimately have "v = of_int (n * 2 ^ nat (k - k')) * 2 powi k'" using v by simp
  then have q: "v / quantum v = of_int (n * 2 ^ nat (k - k'))" and
      prod: "of_int (n * 2 ^ nat (k - k')) * quantum v = v"
    using u by simp_all
  have "round_half_even (v / quantum v) = n * 2 ^ nat (k - k')"
    by (simp only: q rhe_of_int)
  then have "of_int (round_half_even (v / quantum v)) * quantum v = v"
    using prod by simp
  moreover have "\<not> 2 ^ 1024 \<le> v" and "\<not> v \<le> - (2 ^ 1024)" using fin by linarith+
  ultimately show ?thesis by (simp add: round_to_double_def nearest_multiple_def Let_def)
qed

lemma round_to_double_exact:
  assumes v: "v = of_int n * 2 powi k" and n: "\<bar>n\<bar> \<le> 2 ^ 53" and k: "- 1074 \<le> k"
    and fin: "\<bar>v\<bar> < 2 ^ 1024"
  shows "round_to_double v = Finite v"
proof (cases "\<bar>n\<bar> < 2 ^ 53")
  case True
  show ?thesis by (rule round_to_double_exact_lt [OF v True k fin])
next
  case False
  with n have a: "\<bar>n\<bar> = 2 ^ 53" by simp
  then have nn: "n = 2 ^ 53 \<or> n = - (2 ^ 53)" by linarith
  then have "n = 2 * (n div 2)" by (elim disjE) simp_all
  then have "of_int n = (of_int (n div 2) :: rat) * 2"
    by (metis mult.commute of_int_mult of_int_numeral)
  then have "v = of_int (n div 2) * 2 powi (k + 1)"
    using v by (simp add: power_int_add)
  moreover have "\<bar>n div 2\<bar> < 2 ^ 53" using nn by (elim disjE) simp_all
  moreover have "- 1074 \<le> k + 1" using k by simp
  ultimately show ?thesis using fin by (intro round_to_double_exact_lt [of v "n div 2" "k + 1"])
qed

lemma round_to_double_finite:
  assumes "round_to_double q = Finite v"
  shows "\<exists>n k. v = of_int n * 2 powi k \<and> \<bar>n\<bar> \<le> 2 ^ 53 \<and> - 1074 \<le> k \<and> \<bar>v\<bar> < 2 ^ 1024"
proof -
  define k where "k = max (binary_exponent q) (- 1022) - 52"
  define n where "n = round_half_even (q / quantum q)"
  have u: "quantum q = 2 powi k" by (simp add: quantum_def k_def)
  have "round_to_double q =
      (if (2::rat) ^ 1024 \<le> of_int n * 2 powi k then PosInf
       else if (of_int n :: rat) * 2 powi k \<le> - (2 ^ 1024) then NegInf
       else Finite (of_int n * 2 powi k))"
    by (simp only: round_to_double_def nearest_multiple_def Let_def n_def u)
  with assms have v: "v = of_int n * 2 powi k" and fin: "\<bar>v\<bar> < 2 ^ 1024"
    by (auto split: if_splits)
  have k: "- 1074 \<le> k" by (simp add: k_def)
  have "\<bar>n\<bar> \<le> 2 ^ 53"
  proof (cases "q = 0")
    case True
    then show ?thesis using rhe_of_int [of 0] by (simp add: n_def)
  next
    case False
    have "binary_exponent q + 1 \<le> k + 53" by (simp add: k_def)
    then have "(2::rat) powi (binary_exponent q + 1) \<le> 2 powi (k + 53)"
      by (intro power_int_increasing) simp_all
    with binary_exponent_bounds [OF False] have "\<bar>q\<bar> < 2 powi (k + 53)" by linarith
    also have "\<dots> = 2 ^ 53 * 2 powi k" by (simp add: power_int_add)
    finally have "\<bar>q\<bar> / 2 powi k < 2 ^ 53" by (simp add: field_simps)
    then have "\<bar>q / quantum q\<bar> < 2 ^ 53" by (simp add: u)
    then have "q / quantum q < 2 ^ 53" and "- (2 ^ 53) < q / quantum q"
      by (simp_all only: abs_less_iff) linarith+
    then have hi: "q / quantum q \<le> of_int (2 ^ 53)" and lo: "of_int (- (2 ^ 53)) \<le> q / quantum q"
      by simp_all
    have "n \<le> 2 ^ 53" unfolding n_def by (rule rhe_le [OF hi])
    moreover have "- (2 ^ 53) \<le> n" unfolding n_def by (rule rhe_ge [OF lo])
    ultimately show ?thesis by simp
  qed
  with v k fin show ?thesis by blast
qed

lemma round_to_double_idem:
  assumes "round_to_double q = Finite v"
  shows "round_to_double v = Finite v"
proof -
  from round_to_double_finite [OF assms] obtain n k where
    "v = of_int n * 2 powi k" "\<bar>n\<bar> \<le> 2 ^ 53" "- 1074 \<le> k" "\<bar>v\<bar> < 2 ^ 1024"
    by blast
  then show ?thesis by (intro round_to_double_exact [of v n k])
qed

lemma round_to_double_nonzero:
  assumes "2 powi (- 1074) \<le> \<bar>q\<bar>"
  shows "round_to_double q \<noteq> Finite 0"
proof -
  have q0: "q \<noteq> 0" using assms by auto
  define k where "k = max (binary_exponent q) (- 1022) - 52"
  have u: "quantum q = 2 powi k" by (simp add: quantum_def k_def)
  have "(2::rat) powi k \<le> \<bar>q\<bar>"
  proof (cases "- 1022 \<le> binary_exponent q")
    case True
    then have "k \<le> binary_exponent q" by (simp add: k_def)
    then have "(2::rat) powi k \<le> 2 powi (binary_exponent q)"
      by (intro power_int_increasing) simp_all
    with binary_exponent_bounds [OF q0] show ?thesis by linarith
  next
    case False
    then have "k = - 1074" by (simp add: k_def)
    with assms show ?thesis by simp
  qed
  then have "1 \<le> \<bar>q\<bar> / quantum q" by (simp add: u field_simps)
  then have "1 \<le> \<bar>q / quantum q\<bar>" using quantum_pos [of q] by simp
  then have "of_int 1 \<le> q / quantum q \<or> q / quantum q \<le> of_int (- 1)" by simp linarith
  then have "1 \<le> round_half_even (q / quantum q) \<or> round_half_even (q / quantum q) \<le> - 1"
    using rhe_ge [of 1 "q / quantum q"] rhe_le [of "q / quantum q" "- 1"] by blast
  then have "of_int (round_half_even (q / quantum q)) * quantum q \<noteq> 0"
    using quantum_pos [of q] by auto
  then show ?thesis by (auto simp: round_to_double_def nearest_multiple_def Let_def)
qed

lemma double_multiple:
  assumes "round_to_double r = Finite r"
  shows "\<exists>m. r = of_int m * 2 powi (- 1074)"
proof -
  from round_to_double_finite [OF assms] obtain n k where
    r: "r = of_int n * 2 powi k" and k: "- 1074 \<le> k" by blast
  have "(2::rat) powi k = 2 powi ((k + 1074) + (- 1074))" by simp
  also have "\<dots> = 2 powi (k + 1074) * 2 powi (- 1074)" by (rule power_int_add) simp
  finally have "(2::rat) powi k = 2 powi (k + 1074) * 2 powi (- 1074)" .
  moreover have "(2::rat) powi (k + 1074) = of_int (2 ^ nat (k + 1074))"
    using k by (simp add: power_int_def)
  ultimately have "r = of_int (n * 2 ^ nat (k + 1074)) * 2 powi (- 1074)"
    using r by (simp only: of_int_mult mult.assoc)
  then show ?thesis by blast
qed

lemma round_to_double_diff_nonzero:
  assumes "round_to_double a = Finite a" and "round_to_double b = Finite b" and "a \<noteq> b"
  shows "round_to_double (a - b) \<noteq> Finite 0"
proof -
  from double_multiple [OF assms(1)] obtain m where a: "a = of_int m * 2 powi (- 1074)" by blast
  from double_multiple [OF assms(2)] obtain n where b: "b = of_int n * 2 powi (- 1074)" by blast
  have d: "a - b = of_int (m - n) * 2 powi (- 1074)" using a b by (simp add: algebra_simps)
  have "m \<noteq> n" using a b assms(3) by auto
  then have "1 \<le> \<bar>m - n\<bar>" by simp
  then have "(1::rat) \<le> of_int \<bar>m - n\<bar>" by (simp only: of_int_1_le_iff)
  then have "(1::rat) * 2 powi (- 1074) \<le> of_int \<bar>m - n\<bar> * 2 powi (- 1074)"
    by (intro mult_right_mono) simp_all
  then have "2 powi (- 1074) \<le> \<bar>a - b\<bar>" unfolding d by (simp add: abs_mult)
  then show ?thesis by (rule round_to_double_nonzero)
qed

lemma round_to_double_overflow:
  assumes "2 ^ 1024 \<le> q"
  shows "round_to_double q = PosInf"
proof -
  have q0: "q \<noteq> 0" and qa: "\<bar>q\<bar> = q" using assms by auto
  have "(2::rat) powi 1024 \<le> \<bar>q\<bar>" using assms by simp
  then have e: "1024 \<le> binary_exponent q" using q0 by (intro binary_exponent_ge)
  define k where "k = binary_exponent q - 52"
  have u: "quantum q = 2 powi k" using e by (simp add: quantum_def k_def max_def)
  have "(2::rat) powi (binary_exponent q) = 2 powi (52 + k)" by (simp add: k_def)
  also have "\<dots> = 2 powi 52 * 2 powi k" by (rule power_int_add) simp
  finally have split: "(2::rat) powi (binary_exponent q) = 2 ^ 52 * 2 powi k" by simp
  with binary_exponent_bounds [OF q0] qa have "2 ^ 52 * 2 powi k \<le> q" by simp
  then have "of_int (2 ^ 52) \<le> q / quantum q" by (simp add: u field_simps)
  then have "2 ^ 52 \<le> round_half_even (q / quantum q)" by (rule rhe_ge)
  then have "(of_int (2 ^ 52) :: rat) \<le> of_int (round_half_even (q / quantum q))"
    by (simp only: of_int_le_iff)
  then have "of_int (2 ^ 52) * quantum q \<le> of_int (round_half_even (q / quantum q)) * quantum q"
    using quantum_pos [of q] by (intro mult_right_mono) simp_all
  moreover have "of_int (2 ^ 52) * quantum q = 2 powi (binary_exponent q)"
    by (simp add: u split)
  moreover have "(2::rat) powi 1024 \<le> 2 powi (binary_exponent q)"
    using e by (intro power_int_increasing) simp_all
  ultimately have "2 ^ 1024 \<le> of_int (round_half_even (q / quantum q)) * quantum q" by simp
  then show ?thesis by (simp add: round_to_double_def nearest_multiple_def Let_def)
qed

lemma round_to_double_unit:
  assumes "0 \<le> q" and "q \<le> 1"
  shows "\<exists>v. round_to_double q = Finite v \<and> 0 \<le> v \<and> v \<le> 1"
proof (cases "q = 0 \<or> q = 1")
  case True
  have "round_to_double 1 = Finite 1"
    by (rule round_to_double_exact [of 1 1 0]) simp_all
  with True show ?thesis by (auto simp: round_to_double_zero)
next
  case False
  with assms have q0: "q \<noteq> 0" and q1: "\<bar>q\<bar> < 2 powi 0" by auto
  have "binary_exponent q < 0" using q0 q1 by (rule binary_exponent_less)
  define k where "k = max (binary_exponent q) (- 1022) - 52"
  have u: "quantum q = 2 powi k" by (simp add: quantum_def k_def)
  have kn: "k < 0" using \<open>binary_exponent q < 0\<close> by (simp add: k_def)
  define n where "n = round_half_even (q / quantum q)"
  have inv: "1 / quantum q = of_int (2 ^ nat (- k))"
    using kn by (simp add: u power_int_def field_simps)
  have "q / quantum q \<le> 1 / quantum q" using assms quantum_pos [of q] by (simp add: field_simps)
  then have "q / quantum q \<le> of_int (2 ^ nat (- k))" by (simp only: inv)
  then have "n \<le> 2 ^ nat (- k)" unfolding n_def by (rule rhe_le)
  then have "(of_int n :: rat) \<le> of_int (2 ^ nat (- k))" by (simp only: of_int_le_iff)
  then have "of_int n * quantum q \<le> of_int (2 ^ nat (- k)) * quantum q"
    using quantum_pos [of q] by (intro mult_right_mono) simp_all
  moreover have "of_int (2 ^ nat (- k)) * quantum q = 1"
    using inv quantum_pos [of q] by (simp add: field_simps)
  ultimately have hi: "of_int n * quantum q \<le> 1" by simp
  have "of_int 0 \<le> q / quantum q" using assms quantum_pos [of q] by simp
  then have "0 \<le> n" unfolding n_def by (rule rhe_ge)
  then have lo: "0 \<le> of_int n * quantum q" using quantum_pos [of q] by simp
  have "round_to_double q = Finite (of_int n * quantum q)"
    using hi lo by (simp add: round_to_double_def nearest_multiple_def Let_def n_def)
  with hi lo show ?thesis by blast
qed

lemma rhe_mono: "x \<le> y \<Longrightarrow> round_half_even x \<le> round_half_even y"
proof -
  assume le: "x \<le> y"
  then have fl: "\<lfloor>x\<rfloor> \<le> \<lfloor>y\<rfloor>" by (rule floor_mono)
  show ?thesis
  proof (cases "\<lfloor>x\<rfloor> < \<lfloor>y\<rfloor>")
    case True
    have "round_half_even x \<le> \<lfloor>x\<rfloor> + 1" using rhe_cases [of x] by linarith
    moreover have "\<lfloor>y\<rfloor> \<le> round_half_even y" using rhe_cases [of y] by linarith
    ultimately show ?thesis using True by linarith
  next
    case False
    with fl have eq: "\<lfloor>x\<rfloor> = \<lfloor>y\<rfloor>" by simp
    then have "x - of_int \<lfloor>x\<rfloor> \<le> y - of_int \<lfloor>y\<rfloor>" using le by simp
    then show ?thesis
      unfolding round_half_even_def Let_def eq by auto
  qed
qed

lemma round_to_double_nearest:
  "round_to_double q =
     (if 2 ^ 1024 \<le> nearest_multiple q then PosInf else if nearest_multiple q \<le> - (2 ^ 1024) then NegInf else Finite (nearest_multiple q))"
  by (simp add: round_to_double_def Let_def)

lemma nearest_multiple_nonneg: "0 \<le> q \<Longrightarrow> 0 \<le> nearest_multiple q"
proof -
  assume "0 \<le> q"
  then have "of_int 0 \<le> q / quantum q" using quantum_pos [of q] by simp
  then have "0 \<le> round_half_even (q / quantum q)" by (rule rhe_ge)
  then show ?thesis using quantum_pos [of q] by (simp add: nearest_multiple_def)
qed

lemma binary_exponent_mono:
  assumes "0 < a" and "a \<le> b"
  shows "binary_exponent a \<le> binary_exponent b"
proof -
  have a0: "a \<noteq> 0" and b0: "b \<noteq> 0" using assms by auto
  have "2 powi (binary_exponent a) \<le> \<bar>b\<bar>"
    using binary_exponent_bounds [OF a0] assms by linarith
  then show ?thesis using b0 by (intro binary_exponent_ge)
qed

lemma nearest_multiple_mono:
  assumes a: "0 < a" and ab: "a \<le> b"
  shows "nearest_multiple a \<le> nearest_multiple b"
proof -
  have a0: "a \<noteq> 0" and b0: "b \<noteq> 0" and b: "0 < b" using assms by auto
  define ka where "ka = max (binary_exponent a) (- 1022) - 52"
  define kb where "kb = max (binary_exponent b) (- 1022) - 52"
  have ua: "quantum a = 2 powi ka" and ub: "quantum b = 2 powi kb"
    by (simp_all add: quantum_def ka_def kb_def)
  have e: "binary_exponent a \<le> binary_exponent b" using a ab by (rule binary_exponent_mono)
  then have k: "ka \<le> kb" by (simp add: ka_def kb_def)
  show ?thesis
  proof (cases "ka = kb")
    case True
    then have u: "quantum a = quantum b" by (simp add: ua ub)
    have "a / quantum b \<le> b / quantum b" using ab quantum_pos [of b] by (simp add: field_simps)
    then have "round_half_even (a / quantum b) \<le> round_half_even (b / quantum b)" by (rule rhe_mono)
    then have "(of_int (round_half_even (a / quantum b)) :: rat) \<le> of_int (round_half_even (b / quantum b))"
      by (simp only: of_int_le_iff)
    then show ?thesis
      unfolding nearest_multiple_def u using quantum_pos [of b] by (intro mult_right_mono) simp_all
  next
    case False
    with k have lt: "ka < kb" by simp
    let ?eb = "binary_exponent b"
    have eb: "- 1022 < ?eb" "kb = ?eb - 52" "binary_exponent a < ?eb"
      using lt e by (auto simp: ka_def kb_def)
    have "(2::rat) powi ?eb = 2 powi (52 + kb)" using eb by simp
    also have "\<dots> = 2 powi 52 * 2 powi kb" by (rule power_int_add) simp
    finally have split: "(2::rat) powi ?eb = of_int (2 ^ 52) * quantum b" by (simp add: ub)
    have "of_int (2 ^ 52) * quantum b \<le> b"
      using binary_exponent_bounds [OF b0] b unfolding split by simp
    then have "of_int (2 ^ 52) \<le> b / quantum b" using quantum_pos [of b] by (simp add: field_simps)
    then have "2 ^ 52 \<le> round_half_even (b / quantum b)" by (rule rhe_ge)
    then have "(of_int (2 ^ 52) :: rat) \<le> of_int (round_half_even (b / quantum b))"
      by (simp only: of_int_le_iff)
    then have "of_int (2 ^ 52) * quantum b \<le> nearest_multiple b"
      unfolding nearest_multiple_def using quantum_pos [of b] by (intro mult_right_mono) simp_all
    then have hi: "2 powi ?eb \<le> nearest_multiple b" by (simp only: split)
    have "binary_exponent a + 1 \<le> ?eb" using eb by simp
    then have "(2::rat) powi (binary_exponent a + 1) \<le> 2 powi ?eb"
      by (intro power_int_increasing) simp_all
    with binary_exponent_bounds [OF a0] a have alt: "a \<le> 2 powi ?eb" by simp
    have kk: "ka \<le> ?eb" using lt eb by simp
    have "(2::rat) powi ?eb = 2 powi ((?eb - ka) + ka)" by simp
    also have "\<dots> = 2 powi (?eb - ka) * 2 powi ka" by (rule power_int_add) simp
    also have "(2::rat) powi (?eb - ka) = of_int (2 ^ nat (?eb - ka))"
      using kk by (simp add: power_int_def)
    finally have split': "(2::rat) powi ?eb = of_int (2 ^ nat (?eb - ka)) * quantum a"
      by (simp add: ua)
    have "a / quantum a \<le> of_int (2 ^ nat (?eb - ka))"
      using alt quantum_pos [of a] unfolding split' by (simp add: field_simps)
    then have "round_half_even (a / quantum a) \<le> 2 ^ nat (?eb - ka)" by (rule rhe_le)
    then have "(of_int (round_half_even (a / quantum a)) :: rat) \<le> of_int (2 ^ nat (?eb - ka))"
      by (simp only: of_int_le_iff)
    then have "nearest_multiple a \<le> of_int (2 ^ nat (?eb - ka)) * quantum a"
      unfolding nearest_multiple_def using quantum_pos [of a] by (intro mult_right_mono) simp_all
    then have "nearest_multiple a \<le> 2 powi ?eb" by (simp only: split')
    with hi show ?thesis by linarith
  qed
qed

lemma round_to_double_mono:
  assumes "0 \<le> a" and "a \<le> b" and "round_to_double b = Finite r"
  shows "\<exists>s. round_to_double a = Finite s \<and> 0 \<le> s \<and> s \<le> r"
proof -
  have r: "nearest_multiple b = r" and fin: "nearest_multiple b < 2 ^ 1024"
    using assms(3) by (auto simp: round_to_double_nearest split: if_splits)
  have "nearest_multiple a \<le> nearest_multiple b"
  proof (cases "a = 0")
    case True
    have "nearest_multiple 0 = 0" using rhe_of_int [of 0] by (simp add: nearest_multiple_def)
    then show ?thesis using True nearest_multiple_nonneg [of b] assms by simp
  next
    case False
    with assms show ?thesis by (intro nearest_multiple_mono) simp_all
  qed
  moreover have "0 \<le> nearest_multiple a" using assms(1) by (rule nearest_multiple_nonneg)
  ultimately show ?thesis using r fin by (simp add: round_to_double_nearest)
qed

section \<open>Settled properties: normalisation\<close>

lemma holds_iff:
  "holds a d \<longleftrightarrow> (\<exists>k. a = NInt k \<and> of_int k = d) \<or> a = NFloat (round_to_double d)"
  by (cases a) (auto simp: holds_def)

lemma rescaled_iff:
  "rescaled lo hi v w \<longleftrightarrow>
     0 \<le> w \<and> w \<le> 1 \<and> (v = lo \<longrightarrow> w = 0) \<and> (v = hi \<longrightarrow> w = 1) \<and>
     (Finite w = round_to_double ((v - lo) / (hi - lo)) \<or>
      (\<exists>s r. round_to_double (v - lo) = Finite s \<and> round_to_double (hi - lo) = Finite r \<and>
             Finite w = round_to_double (s / r)))"
  by (auto simp: rescaled_def split: pyfloat.splits)

lemma as_int_exact: "as_int a = Some i \<Longrightarrow> exact_value a = Finite (of_int i)"
  by (cases a) (auto split: if_splits)

lemma round_to_double_one: "round_to_double 1 = Finite 1"
  by (rule round_to_double_exact [of 1 1 0]) simp_all

lemma float_add_zero:
  "round_to_double q = Finite v \<Longrightarrow> float_add (Finite 0) (Finite v) = Finite v"
  by (simp add: round_to_double_idem)

lemma scaled_unit: "lo \<le> i \<Longrightarrow> i \<le> hi \<Longrightarrow> lo < hi \<Longrightarrow> 0 \<le> scaled lo hi i \<and> scaled lo hi i \<le> 1"
  by (simp add: scaled_def)

lemma rescale_ints:
  assumes x: "as_int x = Some i" and m: "as_int min_val = Some lo"
    and i: "lo \<le> i" "i \<le> hi" and d: "lo < hi"
  shows "rescale (NInt 0) (NInt 1) min_val (NInt (hi - lo)) x =
           Inr (NFloat (round_to_double (scaled lo hi i)))"
proof -
  from round_to_double_unit scaled_unit [OF i d]
  obtain v where v: "round_to_double (scaled lo hi i) = Finite v" by blast
  have "num_sub x min_val = Inr (NInt (i - lo))" using x m by (simp add: num_sub_def)
  moreover have "num_sub (NInt 1) (NInt 0) = Inr (NInt 1)" by (simp add: num_sub_def)
  moreover have "num_mul (NInt (i - lo)) (NInt 1) = Inr (NInt (i - lo))" by (simp add: num_mul_def)
  moreover have "num_truediv (NInt (i - lo)) (NInt (hi - lo)) = Inr (NFloat (Finite v))"
    using d v by (simp add: num_truediv_def int_truediv_def scaled_def)
  moreover have "num_add (NInt 0) (NFloat (Finite v)) = Inr (NFloat (Finite v))"
    using float_add_zero [OF v]
    by (simp add: num_add_def float_op_def int_to_float_def round_to_double_zero)
  ultimately show ?thesis using v by (simp add: rescale_def)
qed

lemmas num_simps = num_sub_def num_mul_def num_add_def num_truediv_def int_truediv_def
  float_op_def int_to_float_def float_sub_def num_lt_def num_gt_def num_eq_def float_eq_def
  rescale_def round_to_double_zero round_to_double_one

lemma round_to_double_quarters:
  "round_to_double (1 / 4) = Finite (1 / 4)"
  "round_to_double (1 / 2) = Finite (1 / 2)"
  "round_to_double (3 / 4) = Finite (3 / 4)"
  by (rule round_to_double_exact [of _ 1 "- 2"], simp_all add: power_int_minus)
     (rule round_to_double_exact [of _ 1 "- 1"], simp_all add: power_int_minus,
      rule round_to_double_exact [of _ 3 "- 2"], simp_all add: power_int_minus)

lemma is_double_to_float:
  "is_double x \<Longrightarrow> exact_value x = Finite r \<Longrightarrow> to_float x = Inr (Finite r)"
  by (cases x) (auto simp: is_double_def int_to_float_def)

lemma is_double_round:
  "is_double x \<Longrightarrow> exact_value x = Finite r \<Longrightarrow> round_to_double r = Finite r"
  by (simp add: is_double_def)

lemma num_lt_finite:
  "exact_value a = Finite r \<Longrightarrow> exact_value b = Finite s \<Longrightarrow> num_lt a b \<longleftrightarrow> r < s"
  by (simp add: num_lt_def)

lemma num_gt_finite:
  "exact_value a = Finite r \<Longrightarrow> exact_value b = Finite s \<Longrightarrow> num_gt a b \<longleftrightarrow> s < r"
  by (simp add: num_gt_def)

lemma Min_insert_two_rat:
  "finite S \<Longrightarrow> Min (insert (c::rat) (insert j S)) = Min (insert (min c j) S)"
  by (cases "S = {}") (simp_all add: min.assoc)

lemma Max_insert_two_rat:
  "finite S \<Longrightarrow> Max (insert (c::rat) (insert j S)) = Max (insert (max c j) S)"
  by (cases "S = {}") (simp_all add: max.assoc)

lemma min_loop_finite:
  "exact_value cur = Finite c \<Longrightarrow> map exact_value xs = map Finite rs \<Longrightarrow>
   exact_value (min_loop cur xs) = Finite (Min (insert c (set rs))) \<and>
   min_loop cur xs \<in> set (cur # xs)"
proof (induction xs arbitrary: cur c rs)
  case Nil
  then show ?case by simp
next
  case (Cons x xs)
  then obtain r rs' where rs: "rs = r # rs'" and x: "exact_value x = Finite r"
    and rest: "map exact_value xs = map Finite rs'" by (cases rs) auto
  show ?case
  proof (cases "r < c")
    case True
    then have "min_loop cur (x # xs) = min_loop x xs"
      using num_lt_finite [OF x Cons.prems(1)] by simp
    moreover have "Min (insert c (set rs)) = Min (insert r (set rs'))"
      using True rs Min_insert_two_rat [of "set rs'" c r] by (simp add: min_def)
    ultimately show ?thesis using Cons.IH [OF x rest] by auto
  next
    case False
    then have "min_loop cur (x # xs) = min_loop cur xs"
      using num_lt_finite [OF x Cons.prems(1)] by simp
    moreover have "Min (insert c (set rs)) = Min (insert c (set rs'))"
      using False rs Min_insert_two_rat [of "set rs'" c r] by (simp add: min_def)
    ultimately show ?thesis using Cons.IH [OF Cons.prems(1) rest] by auto
  qed
qed

lemma max_loop_finite:
  "exact_value cur = Finite c \<Longrightarrow> map exact_value xs = map Finite rs \<Longrightarrow>
   exact_value (max_loop cur xs) = Finite (Max (insert c (set rs))) \<and>
   max_loop cur xs \<in> set (cur # xs)"
proof (induction xs arbitrary: cur c rs)
  case Nil
  then show ?case by simp
next
  case (Cons x xs)
  then obtain r rs' where rs: "rs = r # rs'" and x: "exact_value x = Finite r"
    and rest: "map exact_value xs = map Finite rs'" by (cases rs) auto
  show ?case
  proof (cases "c < r")
    case True
    then have "max_loop cur (x # xs) = max_loop x xs"
      using num_gt_finite [OF x Cons.prems(1)] by simp
    moreover have "Max (insert c (set rs)) = Max (insert r (set rs'))"
      using True rs Max_insert_two_rat [of "set rs'" c r] by (simp add: max_def)
    ultimately show ?thesis using Cons.IH [OF x rest] by auto
  next
    case False
    then have "max_loop cur (x # xs) = max_loop cur xs"
      using num_gt_finite [OF x Cons.prems(1)] by simp
    moreover have "Max (insert c (set rs)) = Max (insert c (set rs'))"
      using False rs Max_insert_two_rat [of "set rs'" c r] by (simp add: max_def)
    ultimately show ?thesis using Cons.IH [OF Cons.prems(1) rest] by auto
  qed
qed

lemma as_int_value: "as_int a = Some i \<Longrightarrow> exact_value a = Finite r \<Longrightarrow> r = of_int i"
  by (cases a) (auto split: if_splits)

lemma num_sub_holds:
  assumes "is_double a" "is_double b" "exact_value a = Finite r" "exact_value b = Finite s"
  shows "\<exists>c. num_sub a b = Inr c \<and> holds c (r - s) \<and>
             (as_int a = None \<or> as_int b = None \<longrightarrow> c = NFloat (round_to_double (r - s)))"
proof (cases "as_int a")
  case None
  then show ?thesis
    using is_double_to_float [OF assms(1,3)] is_double_to_float [OF assms(2,4)]
    by (simp add: num_sub_def float_op_def float_sub_def holds_iff)
next
  case (Some i)
  show ?thesis
  proof (cases "as_int b")
    case None
    then show ?thesis
      using Some is_double_to_float [OF assms(1,3)] is_double_to_float [OF assms(2,4)]
      by (simp add: num_sub_def float_op_def float_sub_def holds_iff)
  next
    case (Some j)
    then show ?thesis
      using \<open>as_int a = Some i\<close> as_int_value [OF \<open>as_int a = Some i\<close> assms(3)]
        as_int_value [OF Some assms(4)]
      by (simp add: num_sub_def holds_iff)
  qed
qed

lemma holds_to_float:
  "holds a d \<Longrightarrow> round_to_double d = Finite s \<Longrightarrow> to_float a = Inr (Finite s)"
  by (auto simp: holds_iff int_to_float_def)

lemma rescaled_exact:
  assumes "lo \<le> v" "v \<le> hi" "lo < hi"
  shows "\<exists>w. round_to_double ((v - lo) / (hi - lo)) = Finite w \<and> rescaled lo hi v w"
proof -
  have u: "0 \<le> (v - lo) / (hi - lo)" "(v - lo) / (hi - lo) \<le> 1" using assms by simp_all
  from round_to_double_unit [OF u] obtain w where
    w: "round_to_double ((v - lo) / (hi - lo)) = Finite w" "0 \<le> w" "w \<le> 1" by blast
  have "v = lo \<Longrightarrow> w = 0" using w(1) by (simp add: round_to_double_zero)
  moreover have "v = hi \<Longrightarrow> w = 1" using w(1) assms(3) by (simp add: round_to_double_one)
  ultimately show ?thesis using w by (auto simp: rescaled_iff)
qed

lemma rescaled_rounded:
  assumes "lo \<le> v" "v \<le> hi" "lo < hi"
    and s: "round_to_double (v - lo) = Finite s" and r: "round_to_double (hi - lo) = Finite r"
    and r0: "r \<noteq> 0" and sr: "0 \<le> s" "s \<le> r"
  shows "\<exists>w. round_to_double (s / r) = Finite w \<and> rescaled lo hi v w"
proof -
  have rp: "0 < r" using r0 sr by simp
  have u: "0 \<le> s / r" "s / r \<le> 1" using sr rp by simp_all
  from round_to_double_unit [OF u] obtain w where
    w: "round_to_double (s / r) = Finite w" "0 \<le> w" "w \<le> 1" by blast
  have "v = lo \<Longrightarrow> w = 0" using w(1) s by (simp add: round_to_double_zero)
  moreover have "v = hi \<Longrightarrow> w = 1" using w(1) s r r0 by (simp add: round_to_double_one)
  ultimately show ?thesis using w s r by (auto simp: rescaled_iff)
qed

lemma num_add_zero:
  assumes "z = NInt 0 \<or> z = NFloat (Finite 0)" and "round_to_double q = Finite w"
  shows "num_add z (NFloat (Finite w)) = Inr (NFloat (Finite w))"
  using assms round_to_double_idem [OF assms(2)]
  by (auto simp: num_add_def float_op_def int_to_float_def round_to_double_zero)

lemma rescale_doubles:
  assumes x: "is_double x" "exact_value x = Finite v"
    and mn: "is_double mn" "exact_value mn = Finite lo"
    and hi: "round_to_double hi = Finite hi"
    and range: "holds range_val (hi - lo)"
    and fin: "round_to_double (hi - lo) = Finite r"
    and bounds: "lo \<le> v" "v \<le> hi" "lo < hi"
    and z: "new_min = NInt 0 \<or> new_min = NFloat (Finite 0)"
    and o: "new_max = NInt 1 \<or> new_max = NFloat (Finite 1)"
  shows "\<exists>w. rescale new_min new_max mn range_val x = Inr (NFloat (Finite w)) \<and> rescaled lo hi v w"
proof -
  have lo: "round_to_double lo = Finite lo" using mn by (rule is_double_round)
  have r0: "r \<noteq> 0" using round_to_double_diff_nonzero [OF hi lo] bounds(3) fin by auto
  have "0 \<le> v - lo" "v - lo \<le> hi - lo" using bounds by simp_all
  from round_to_double_mono [OF this fin] obtain s where
    s: "round_to_double (v - lo) = Finite s" and sr: "0 \<le> s" "s \<le> r" by blast
  from num_sub_holds [OF x(1) mn(1) x(2) mn(2)] obtain a where
    a: "num_sub x mn = Inr a" "holds a (v - lo)" by blast
  have d: "num_sub new_max new_min = Inr (NInt 1) \<or> num_sub new_max new_min = Inr (NFloat (Finite 1))"
    using z o by (auto simp: num_sub_def float_op_def float_sub_def int_to_float_def
        round_to_double_zero round_to_double_one)
  have one: "to_float (NInt 1) = Inr (Finite 1)" "to_float (NFloat (Finite 1)) = Inr (Finite 1)"
    by (simp_all add: int_to_float_def round_to_double_one)
  have ss: "round_to_double (s * 1) = Finite s" using round_to_double_idem [OF s] by simp
  obtain b c where b: "num_sub new_max new_min = Inr b" and c: "num_mul a b = Inr c" "holds c (v - lo)"
  proof -
    have "\<exists>b c. num_sub new_max new_min = Inr b \<and> num_mul a b = Inr c \<and> holds c (v - lo)"
    proof (cases "(\<exists>k. a = NInt k) \<and> num_sub new_max new_min = Inr (NInt 1)")
      case True
      then show ?thesis using a(2) by (auto simp: num_mul_def holds_iff)
    next
      case False
      from d obtain b where b: "num_sub new_max new_min = Inr b" "to_float b = Inr (Finite 1)"
        "b = NInt 1 \<or> b = NFloat (Finite 1)" using one by auto
      have fa: "to_float a = Inr (Finite s)" using a(2) s by (rule holds_to_float)
      have "as_int a = None \<or> as_int b = None"
        using False b a(2) by (auto simp: holds_iff)
      then have "num_mul a b = Inr (NFloat (Finite s))"
        using fa b(2) ss by (auto simp: num_mul_def float_op_def split: option.splits)
      then show ?thesis using b(1) s by (auto simp: holds_iff)
    qed
    then show ?thesis using that by blast
  qed
  have "\<exists>w q. num_truediv c range_val = Inr (NFloat (Finite w)) \<and> round_to_double q = Finite w \<and>
          rescaled lo hi v w"
  proof (cases "(\<exists>k. c = NInt k) \<and> (\<exists>k. range_val = NInt k)")
    case True
    then obtain k n where k: "c = NInt k" "of_int k = v - lo"
      and n: "range_val = NInt n" "of_int n = hi - lo"
      using c(2) range by (auto simp: holds_iff)
    have n0: "n \<noteq> 0" using n(2) bounds(3) by auto
    from rescaled_exact [OF bounds] obtain w where
      w: "round_to_double ((v - lo) / (hi - lo)) = Finite w" "rescaled lo hi v w" by blast
    have "num_truediv c range_val = Inr (NFloat (Finite w))"
      using k n n0 w(1) by (simp add: num_truediv_def int_truediv_def)
    then show ?thesis using w by blast
  next
    case False
    have fc: "to_float c = Inr (Finite s)" using c(2) s by (rule holds_to_float)
    have fr: "to_float range_val = Inr (Finite r)" using range fin by (rule holds_to_float)
    from rescaled_rounded [OF bounds s fin r0 sr] obtain w where
      w: "round_to_double (s / r) = Finite w" "rescaled lo hi v w" by blast
    have "as_int c = None \<or> as_int range_val = None"
      using False c(2) range by (auto simp: holds_iff)
    then have "num_truediv c range_val = Inr (NFloat (Finite w))"
      using fc fr r0 w(1) by (auto simp: num_truediv_def float_op_def split: option.splits)
    then show ?thesis using w by blast
  qed
  then obtain w q where w: "num_truediv c range_val = Inr (NFloat (Finite w))"
    "round_to_double q = Finite w" "rescaled lo hi v w" by blast
  have "num_add new_min (NFloat (Finite w)) = Inr (NFloat (Finite w))"
    using z w(2) by (rule num_add_zero)
  then have "rescale new_min new_max mn range_val x = Inr (NFloat (Finite w))"
    using a(1) b c(1) w(1) by (simp add: rescale_def)
  then show ?thesis using w(3) by blast
qed

lemma rescale_integers:
  assumes "as_int x = Some i" "as_int mn = Some l" "l \<le> i" "i \<le> h" "l < h"
  shows "\<exists>w. rescale (NInt 0) (NInt 1) mn (NInt (h - l)) x = Inr (NFloat (Finite w)) \<and>
             rescaled (of_int l) (of_int h) (of_int i) w"
proof -
  have b: "(of_int l :: rat) \<le> of_int i" "(of_int i :: rat) \<le> of_int h" "(of_int l :: rat) < of_int h"
    using assms by simp_all
  from rescaled_exact [OF b] obtain w where
    w: "round_to_double ((of_int i - of_int l) / (of_int h - of_int l)) = Finite w"
      "rescaled (of_int l) (of_int h) (of_int i) w" by blast
  have "scaled l h i = (of_int i - of_int l) / (of_int h - of_int l)" by (simp add: scaled_def)
  with rescale_ints [OF assms] w show ?thesis by simp
qed

lemma map_raising_ex:
  "(\<And>x. x \<in> set xs \<Longrightarrow> \<exists>w. f x = Inr (g w) \<and> Q x w) \<Longrightarrow>
   \<exists>ws. map_raising f xs = Inr (map g ws) \<and> list_all2 Q xs ws"
proof (induction xs)
  case Nil
  show ?case by simp
next
  case (Cons x xs)
  from Cons.prems [of x] obtain w where w: "f x = Inr (g w)" "Q x w" by auto
  from Cons.IH Cons.prems obtain ws where
    ws: "map_raising f xs = Inr (map g ws)" "list_all2 Q xs ws" by auto
  have "map_raising f (x # xs) = Inr (map g (w # ws))" using w(1) ws(1) by simp
  moreover have "list_all2 Q (x # xs) (w # ws)" using w(2) ws(2) by simp
  ultimately show ?case by blast
qed

lemma list_all2_values:
  "map exact_value xs = map Finite rs \<Longrightarrow>
   list_all2 (\<lambda>x w. \<forall>v. exact_value x = Finite v \<longrightarrow> P v w) xs ws \<Longrightarrow> list_all2 P rs ws"
proof (induction xs arbitrary: rs ws)
  case Nil
  then show ?case by simp
next
  case (Cons x xs)
  then show ?case by (cases rs; cases ws) auto
qed

lemma round_to_double_nonneg_finite:
  assumes "0 \<le> q" and "round_to_double q \<noteq> PosInf"
  shows "\<exists>r. round_to_double q = Finite r"
  using assms nearest_multiple_nonneg [OF assms(1)] by (auto simp: round_to_double_nearest split: if_splits)

lemma binary_exponent_eq:
  "q \<noteq> 0 \<Longrightarrow> 2 powi m \<le> \<bar>q\<bar> \<Longrightarrow> \<bar>q\<bar> < 2 powi (m + 1) \<Longrightarrow> binary_exponent q = m"
  using binary_exponent_ge [of q m] binary_exponent_less [of q "m + 1"] by simp

lemma round_to_double_tie: "round_to_double 9007199254740993 = Finite 9007199254740992"
proof -
  have e: "binary_exponent 9007199254740993 = 53"
    by (rule binary_exponent_eq) simp_all
  have f: "\<lfloor>(9007199254740993::rat) / 2\<rfloor> = 4503599627370496"
    by (simp add: floor_rat_numeral)
  show ?thesis
    by (simp add: round_to_double_def nearest_multiple_def quantum_def e round_half_even_def
          Let_def f)
qed

lemma round_to_double_small:
  "round_to_double 2 = Finite 2"
  "round_to_double 10 = Finite 10"
  "round_to_double 20 = Finite 20"
  "round_to_double 30 = Finite 30"
  "round_to_double 40 = Finite 40"
  "round_to_double 50 = Finite 50"
  by (rule round_to_double_exact [of _ 2 0], simp_all)
     (rule round_to_double_exact [of _ 10 0], simp_all,
      rule round_to_double_exact [of _ 20 0], simp_all,
      rule round_to_double_exact [of _ 30 0], simp_all,
      rule round_to_double_exact [of _ 40 0], simp_all,
      rule round_to_double_exact [of _ 50 0], simp_all)

text \<open>
  C5, as amended. Take a sequence whose numeric elements are finite and not all equal,
  and are either all integers (booleans included), or all exactly doubles (every
  float is; an integer up to \<open>2^53\<close> in size is) with a range \<open>max - min\<close> that does not
  overflow. Then \<open>normalize_min_max(S, 0, 1)\<close> returns one float for each numeric element,
  in order: \<open>0.0\<close> for an element equal to the minimum, \<open>1.0\<close> for one equal to the maximum,
  and for every element a value within \<open>[0, 1]\<close> that is the linear rescaling of the
  element as floats compute it. In the second case \<open>0.0\<close> and \<open>1.0\<close> may be passed as
  floats as well.
\<close>

theorem normalize_min_max_rescales:
  assumes vals: "map exact_value (numbers_of data) = map Finite rs"
    and ne: "\<exists>a \<in> set rs. \<exists>b \<in> set rs. a \<noteq> b"
    and ok: "(list_all (\<lambda>x. as_int x \<noteq> None) (numbers_of data) \<and>
                new_min = NInt 0 \<and> new_max = NInt 1) \<or>
             (list_all is_double (numbers_of data) \<and>
                round_to_double (Max (set rs) - Min (set rs)) \<noteq> PosInf \<and>
                (new_min = NInt 0 \<or> new_min = NFloat (Finite 0)) \<and>
                (new_max = NInt 1 \<or> new_max = NFloat (Finite 1)))"
  shows "\<exists>ws. normalize_min_max data new_min new_max =
                 Inr (map (\<lambda>w. PNum (NFloat (Finite w))) ws) \<and>
              list_all2 (rescaled (Min (set rs)) (Max (set rs))) rs ws"
proof -
  let ?lo = "Min (set rs)" and ?hi = "Max (set rs)"
  let ?nums = "numbers_of data"
  from ne obtain a b where ab: "a \<in> set rs" "b \<in> set rs" "a \<noteq> b" by blast
  then have "rs \<noteq> []" by auto
  then obtain first others where nums: "?nums = first # others"
    using vals by (cases ?nums) auto
  then have data: "data \<noteq> []" by auto
  obtain r0 rs' where rs: "rs = r0 # rs'" and f: "exact_value first = Finite r0"
    and rest: "map exact_value others = map Finite rs'"
    using vals nums by (cases rs) auto
  define mn where "mn = min_loop first others"
  define mx where "mx = max_loop first others"
  have mn: "exact_value mn = Finite ?lo" "mn \<in> set ?nums"
    using min_loop_finite [OF f rest] rs nums by (simp_all add: mn_def)
  have mx: "exact_value mx = Finite ?hi" "mx \<in> set ?nums"
    using max_loop_finite [OF f rest] rs nums by (simp_all add: mx_def)
  have "?lo \<le> a" "a \<le> ?hi" "?lo \<le> b" "b \<le> ?hi" using ab by simp_all
  with ab(3) have lt: "?lo < ?hi" by linarith
  have within: "?lo \<le> v \<and> v \<le> ?hi" if "x \<in> set ?nums" "exact_value x = Finite v" for x v
  proof -
    have "exact_value x \<in> set (map exact_value ?nums)" using that(1) by simp
    then have "v \<in> set rs" using that(2) vals by auto
    then show ?thesis by simp
  qed
  let ?Q = "\<lambda>x w. \<forall>v. exact_value x = Finite v \<longrightarrow> rescaled ?lo ?hi v w"
  have "\<exists>range_val. num_sub mx mn = Inr range_val \<and> \<not> num_eq range_val (NInt 0) \<and>
          (\<forall>x \<in> set ?nums. \<exists>w. rescale new_min new_max mn range_val x = Inr (NFloat (Finite w)) \<and>
              ?Q x w)"
  proof (cases "list_all (\<lambda>x. as_int x \<noteq> None) ?nums \<and> new_min = NInt 0 \<and> new_max = NInt 1")
    case True
    then have ints: "list_all (\<lambda>x. as_int x \<noteq> None) ?nums"
      and p: "new_min = NInt 0" "new_max = NInt 1" by simp_all
    from ints mn(2) obtain l where l: "as_int mn = Some l" by (auto simp: list_all_iff)
    from ints mx(2) obtain h where h: "as_int mx = Some h" by (auto simp: list_all_iff)
    have lo: "?lo = of_int l" using as_int_value [OF l mn(1)] .
    have hi: "?hi = of_int h" using as_int_value [OF h mx(1)] .
    have lh: "l < h" using lt lo hi by simp
    have "num_sub mx mn = Inr (NInt (h - l))" using l h by (simp add: num_sub_def)
    moreover have "\<not> num_eq (NInt (h - l)) (NInt 0)"
      using lh by (simp add: num_eq_def float_eq_def)
    moreover have "\<exists>w. rescale new_min new_max mn (NInt (h - l)) x = Inr (NFloat (Finite w)) \<and> ?Q x w"
      if "x \<in> set ?nums" for x
    proof -
      from ints that obtain i where i: "as_int x = Some i" by (auto simp: list_all_iff)
      have v: "exact_value x = Finite (of_int i)" using i by (rule as_int_exact)
      from within [OF that v] have "l \<le> i" "i \<le> h" using lo hi by simp_all
      from rescale_integers [OF i l this lh] v show ?thesis using p lo hi by auto
    qed
    ultimately show ?thesis by blast
  next
    case False
    with ok have dbl: "list_all is_double ?nums"
      and fin: "round_to_double (?hi - ?lo) \<noteq> PosInf"
      and p: "new_min = NInt 0 \<or> new_min = NFloat (Finite 0)"
        "new_max = NInt 1 \<or> new_max = NFloat (Finite 1)" by blast+
    have dmn: "is_double mn" and dmx: "is_double mx" using dbl mn(2) mx(2) by (auto simp: list_all_iff)
    have "0 \<le> ?hi - ?lo" using lt by simp
    from round_to_double_nonneg_finite [OF this fin] obtain r where
      r: "round_to_double (?hi - ?lo) = Finite r" by blast
    have hi: "round_to_double ?hi = Finite ?hi" using dmx mx(1) by (rule is_double_round)
    have lo: "round_to_double ?lo = Finite ?lo" using dmn mn(1) by (rule is_double_round)
    have r0: "r \<noteq> 0" using round_to_double_diff_nonzero [OF hi lo] lt r by auto
    from num_sub_holds [OF dmx dmn mx(1) mn(1)] obtain range_val where
      rv: "num_sub mx mn = Inr range_val" "holds range_val (?hi - ?lo)" by blast
    have "\<not> num_eq range_val (NInt 0)"
      using rv(2) r r0 lt by (auto simp: holds_iff num_eq_def float_eq_def)
    moreover have "\<exists>w. rescale new_min new_max mn range_val x = Inr (NFloat (Finite w)) \<and> ?Q x w"
      if "x \<in> set ?nums" for x
    proof -
      have dx: "is_double x" using dbl that by (auto simp: list_all_iff)
      then obtain v where v: "exact_value x = Finite v"
        by (auto simp: is_double_def split: pyfloat.splits)
      from within [OF that v] have b: "?lo \<le> v" "v \<le> ?hi" by simp_all
      from rescale_doubles [OF dx v dmn mn(1) hi rv(2) r b lt p] v show ?thesis by auto
    qed
    ultimately show ?thesis using rv(1) by blast
  qed
  then obtain range_val where rv: "num_sub mx mn = Inr range_val" "\<not> num_eq range_val (NInt 0)"
    and all: "\<forall>x \<in> set ?nums.
        \<exists>w. rescale new_min new_max mn range_val x = Inr (NFloat (Finite w)) \<and> ?Q x w"
    by blast
  have each: "\<exists>w. rescale new_min new_max mn range_val x = Inr (NFloat (Finite w)) \<and> ?Q x w"
    if "x \<in> set ?nums" for x
    using all that by blast
  from map_raising_ex [of ?nums "rescale new_min new_max mn range_val" "\<lambda>w. NFloat (Finite w)" ?Q,
      OF each]
  obtain ws where ws: "map_raising (rescale new_min new_max mn range_val) ?nums =
      Inr (map (\<lambda>w. NFloat (Finite w)) ws)" "list_all2 ?Q ?nums ws" by blast
  have "list_all2 (rescaled ?lo ?hi) rs ws" using vals ws(2) by (rule list_all2_values)
  moreover have "normalize_min_max data new_min new_max =
      Inr (map (\<lambda>w. PNum (NFloat (Finite w))) ws)"
    using data nums rv ws(1)
    by (simp add: normalize_min_max_def Let_def comp_def mn_def mx_def del: map_raising.simps)
  ultimately show ?thesis by blast
qed

text \<open>
  The scenario of the specification, called with the floats \<open>0.0\<close> and \<open>1.0\<close> and an
  element that is not a number in between; and integers too large for a float, which
  the first case covers.
\<close>

theorem normalize_min_max_rescales_witness:
  "normalize_min_max
     [PNum (NInt 10), PNum (NInt 20), PStr ''skip'', PNum (NInt 30), PNum (NInt 40), PNum (NInt 50)]
     (NFloat (Finite 0)) (NFloat (Finite 1)) =
   Inr [PNum (NFloat (Finite 0)), PNum (NFloat (Finite (1 / 4))), PNum (NFloat (Finite (1 / 2))),
        PNum (NFloat (Finite (3 / 4))), PNum (NFloat (Finite 1))] \<and>
   list_all2 (rescaled 10 50) [10, 20, 30, 40, 50] [0, 1 / 4, 1 / 2, 3 / 4, 1] \<and>
   (\<exists>ws. normalize_min_max [PNum (NInt 0), PNum (NBool True), PNum (NInt (10 ^ 400))]
            (NInt 0) (NInt 1) = Inr (map (\<lambda>w. PNum (NFloat (Finite w))) ws) \<and>
         list_all2 (rescaled 0 (10 ^ 400)) [0, 1, 10 ^ 400] ws)"
proof -
  let ?data = "[PNum (NInt 10), PNum (NInt 20), PStr ''skip'', PNum (NInt 30), PNum (NInt 40),
    PNum (NInt 50)]"
  have ev: "normalize_min_max ?data (NFloat (Finite 0)) (NFloat (Finite 1)) =
      Inr [PNum (NFloat (Finite 0)), PNum (NFloat (Finite (1 / 4))), PNum (NFloat (Finite (1 / 2))),
           PNum (NFloat (Finite (3 / 4))), PNum (NFloat (Finite 1))]"
    by (simp add: normalize_min_max_def num_simps Let_def round_to_double_small
          round_to_double_quarters)
  have vals: "map exact_value (numbers_of ?data) = map Finite [10, 20, 30, 40, 50]" by simp
  have ne: "\<exists>a \<in> set [10, 20, 30, 40, 50 :: rat]. \<exists>b \<in> set [10, 20, 30, 40, 50]. a \<noteq> b"
    by (rule bexI [of _ 10], rule bexI [of _ 20]) simp_all
  have ok: "(list_all (\<lambda>x. as_int x \<noteq> None) (numbers_of ?data) \<and>
                NFloat (Finite 0) = NInt 0 \<and> NFloat (Finite 1) = NInt 1) \<or>
             (list_all is_double (numbers_of ?data) \<and>
                round_to_double (Max (set [10, 20, 30, 40, 50]) - Min (set [10, 20, 30, 40, 50])) \<noteq> PosInf \<and>
                (NFloat (Finite 0) = NInt 0 \<or> NFloat (Finite 0) = NFloat (Finite 0)) \<and>
                (NFloat (Finite 1) = NInt 1 \<or> NFloat (Finite 1) = NFloat (Finite 1)))"
    by (simp add: is_double_def round_to_double_small)
  from normalize_min_max_rescales [OF vals ne ok] obtain ws where
    ws: "normalize_min_max ?data (NFloat (Finite 0)) (NFloat (Finite 1)) =
           Inr (map (\<lambda>w. PNum (NFloat (Finite w))) ws)"
      "list_all2 (rescaled (Min (set [10, 20, 30, 40, 50])) (Max (set [10, 20, 30, 40, 50])))
         [10, 20, 30, 40, 50] ws"
    by blast
  from ev ws(1) have "map (\<lambda>w. PNum (NFloat (Finite w))) ws =
      map (\<lambda>w. PNum (NFloat (Finite w))) [0, 1 / 4, 1 / 2, 3 / 4, 1]" by simp
  then have "ws = [0, 1 / 4, 1 / 2, 3 / 4, 1]"
    by (auto simp: map_eq_Cons_conv)
  with ws(2) have first: "list_all2 (rescaled 10 50) [10, 20, 30, 40, 50] [0, 1 / 4, 1 / 2, 3 / 4, 1]"
    by simp
  let ?big = "[PNum (NInt 0), PNum (NBool True), PNum (NInt (10 ^ 400))]"
  have vals': "map exact_value (numbers_of ?big) = map Finite [0, 1, 10 ^ 400]" by simp
  have ne': "\<exists>a \<in> set [0, 1, 10 ^ 400 :: rat]. \<exists>b \<in> set [0, 1, 10 ^ 400]. a \<noteq> b"
    by (rule bexI [of _ 0], rule bexI [of _ 1]) simp_all
  have ok': "(list_all (\<lambda>x. as_int x \<noteq> None) (numbers_of ?big) \<and> NInt 0 = NInt 0 \<and> NInt 1 = NInt 1) \<or>
             (list_all is_double (numbers_of ?big) \<and>
                round_to_double (Max (set [0, 1, 10 ^ 400]) - Min (set [0, 1, 10 ^ 400])) \<noteq> PosInf \<and>
                (NInt 0 = NInt 0 \<or> NInt 0 = NFloat (Finite 0)) \<and>
                (NInt 1 = NInt 1 \<or> NInt 1 = NFloat (Finite 1)))"
    by simp
  from normalize_min_max_rescales [OF vals' ne' ok']
  have second: "\<exists>ws. normalize_min_max ?big (NInt 0) (NInt 1) =
        Inr (map (\<lambda>w. PNum (NFloat (Finite w))) ws) \<and>
      list_all2 (rescaled 0 (10 ^ 400)) [0, 1, 10 ^ 400] ws"
    by simp
  from ev first second show ?thesis by blast
qed

text \<open>
  C5 as stated fails. With an infinity as the maximum, the range is infinite and the
  maximum is mapped to not-a-number; a not-a-number element makes minimum, maximum and
  every result not-a-number; on the finite floats \<open>-2^1023\<close> and \<open>2^1023\<close> the range
  overflows to infinity, and the maximum is again mapped to not-a-number. With the float
  \<open>2^53\<close> and the integer \<open>2^53 + 1\<close>, which differ, the integer is rounded to the float
  when the range is computed, the range is zero and both elements are mapped to the
  integer \<open>0\<close>; with the float \<open>0.5\<close> and the integer \<open>10^400\<close> the call raises.
\<close>

theorem normalize_min_max_float_counterexample:
  "normalize_min_max [PNum (NInt 1), PNum (NInt 2), PNum (NFloat PosInf)] (NInt 0) (NInt 1) =
     Inr [PNum (NFloat (Finite 0)), PNum (NFloat (Finite 0)), PNum (NFloat NaN)] \<and>
   normalize_min_max [PNum (NFloat NaN), PNum (NInt 0), PNum (NInt 1)] (NInt 0) (NInt 1) =
     Inr [PNum (NFloat NaN), PNum (NFloat NaN), PNum (NFloat NaN)] \<and>
   normalize_min_max
     [PNum (NFloat (Finite (- (2 ^ 1023)))), PNum (NFloat (Finite (2 ^ 1023)))] (NInt 0) (NInt 1) =
     Inr [PNum (NFloat (Finite 0)), PNum (NFloat NaN)] \<and>
   normalize_min_max [PNum (NFloat (Finite (2 ^ 53))), PNum (NInt (2 ^ 53 + 1))] (NInt 0) (NInt 1) =
     Inr [PNum (NInt 0), PNum (NInt 0)] \<and>
   normalize_min_max [PNum (NFloat (Finite (1 / 2))), PNum (NInt (10 ^ 400))] (NInt 0) (NInt 1) =
     Inl OverflowError"
proof -
  have "round_to_double (2 ^ 1023 + 2 ^ 1023) = PosInf"
    by (rule round_to_double_overflow) simp
  moreover have "round_to_double (10 ^ 400) = PosInf"
    by (rule round_to_double_overflow) simp
  ultimately show ?thesis
    by (simp add: normalize_min_max_def num_simps Let_def round_to_double_tie)
qed

section \<open>Settled properties: conversion to integers\<close>

lemma scan_examples:
  "scan_float ''10.5'' = Some (Decimal (21 / 2))"
  "scan_float ''20'' = Some (Decimal 20)"
  "scan_float ''texto'' = None"
  "scan_float ''inf'' = Some (Special PosInf)"
  by code_simp+

lemma round_examples:
  "round_to_double (21 / 2) = Finite (21 / 2)"
  "round_to_double 20 = Finite 20"
  by (rule round_to_double_exact [of _ 21 "- 1"], simp_all add: power_int_minus)
     (rule round_to_double_exact [of _ 20 0], simp_all)

text \<open>
  C2 fails on the code. The string \<open>"inf"\<close> is read as the float infinity, \<open>int\<close> of it
  raises \<open>OverflowError\<close>, and the handler catches \<open>ValueError\<close> and \<open>TypeError\<close> only:
  the call raises instead of leaving the string out. On the scenario of the
  specification the function returns \<open>[10, 20]\<close>.
\<close>

theorem convert_to_integers_infinity:
  "convert_to_integers [PStr ''10.5'', PStr ''inf'', PStr ''20''] = Inl OverflowError \<and>
   convert_to_integers [PStr ''10.5'', PStr ''20'', PStr ''texto''] =
     Inr [PNum (NInt 10), PNum (NInt 20)]"
  by (simp add: convert_to_integers_def float_of_string_def scan_examples round_examples
        floor_rat_numeral)

end
